theory Spec2Isabelle
  imports Complex_Main
begin

section \<open>JavaScript strings and arrays\<close>

text \<open>
  A JavaScript string is modelled as a \<^typ>\<open>string\<close>, one \<^typ>\<open>char\<close> per code unit.  The
  model covers ASCII text: \<open>toLowerCase\<close> maps \<open>A\<close>..\<open>Z\<close> to \<open>a\<close>..\<open>z\<close> and leaves every
  other code unit alone, and the white space of \<open>\s\<close> is the ASCII white space.
\<close>

definition bslash :: char where
  "bslash = CHR 0x5C"

definition newline :: char where
  "newline = CHR 0x0A"

definition upper_letters :: string where
  "upper_letters = ''ABCDEFGHIJKLMNOPQRSTUVWXYZ''"

definition lower_letters :: string where
  "lower_letters = ''abcdefghijklmnopqrstuvwxyz''"

definition digit_chars :: string where
  "digit_chars = ''0123456789''"

definition lower_char :: "char \<Rightarrow> char" where
  "lower_char c = (case map_of (zip upper_letters lower_letters) c of None \<Rightarrow> c | Some l \<Rightarrow> l)"

definition upper_char :: "char \<Rightarrow> char" where
  "upper_char c = (case map_of (zip lower_letters upper_letters) c of None \<Rightarrow> c | Some u \<Rightarrow> u)"

definition toLowerCase :: "string \<Rightarrow> string" where
  "toLowerCase s = map lower_char s"

definition is_digit :: "char \<Rightarrow> bool" where
  "is_digit c = (c \<in> set digit_chars)"

definition is_word_char :: "char \<Rightarrow> bool" where
  "is_word_char c = (c \<in> set lower_letters \<or> c \<in> set upper_letters \<or> c \<in> set digit_chars \<or> c = CHR ''_'')"

definition is_space :: "char \<Rightarrow> bool" where
  "is_space c = (c \<in> {CHR 0x09, CHR 0x0A, CHR 0x0B, CHR 0x0C, CHR 0x0D, CHR 0x20})"

definition is_line_terminator :: "char \<Rightarrow> bool" where
  "is_line_terminator c = (c = CHR 0x0A \<or> c = CHR 0x0D)"

text \<open>\<open>s.startsWith(p)\<close> and \<open>s.includes(t)\<close>.\<close>

fun startsWith :: "string \<Rightarrow> string \<Rightarrow> bool" where
  "startsWith s [] = True"
| "startsWith [] (p # ps) = False"
| "startsWith (c # cs) (p # ps) = (c = p \<and> startsWith cs ps)"

fun includesStr :: "string \<Rightarrow> string \<Rightarrow> bool" where
  "includesStr [] t = (t = [])"
| "includesStr (c # cs) t = (startsWith (c # cs) t \<or> includesStr cs t)"

text \<open>\<open>s.split(sep)\<close> for a one-character separator, and \<open>xs.join(sep)\<close>.\<close>

fun split :: "char \<Rightarrow> string \<Rightarrow> string list" where
  "split sep [] = [[]]"
| "split sep (c # cs) =
     (if c = sep then [] # split sep cs
      else (case split sep cs of [] \<Rightarrow> [[c]] | l # ls \<Rightarrow> (c # l) # ls))"

fun join :: "string \<Rightarrow> string list \<Rightarrow> string" where
  "join sep [] = []"
| "join sep [x] = x"
| "join sep (x # y # ys) = x @ sep @ join sep (y # ys)"

text \<open>
  \<open>s.split(/\s+/)\<close>: the flag says that the scan is inside a run of white space, \<open>cur\<close> is
  the piece being read, reversed.
\<close>

fun split_ws :: "bool \<Rightarrow> string \<Rightarrow> string \<Rightarrow> string list" where
  "split_ws in_sep cur [] = [rev cur]"
| "split_ws in_sep cur (c # cs) =
     (if is_space c then (if in_sep then split_ws True cur cs else rev cur # split_ws True [] cs)
      else split_ws False (c # cur) cs)"

text \<open>
  \<open>xs.slice(start, end)\<close> on integers: a negative index counts from the end of the array,
  and both indices are clamped to the array.
\<close>

definition slice :: "'a list \<Rightarrow> int \<Rightarrow> int \<Rightarrow> 'a list" where
  "slice xs start end =
     (let len = int (length xs);
          k = (if start < 0 then max (len + start) 0 else min start len);
          final = (if end < 0 then max (len + end) 0 else min end len)
      in take (nat (final - k)) (drop (nat k) xs))"

text \<open>
  The three global replacements of \<open>matchesGlobs\<close>, each scanning from the left and
  skipping what it has replaced: \<open>replace(/\*\*/g, '.*')\<close>, \<open>replace(/\*/g, '[^/]*')\<close> and
  \<open>replace(/\?/g, '.')\<close>.
\<close>

fun replace_star_star :: "string \<Rightarrow> string" where
  "replace_star_star [] = []"
| "replace_star_star [c] = [c]"
| "replace_star_star (c # d # cs) =
     (if c = CHR ''*'' \<and> d = CHR ''*'' then ''.*'' @ replace_star_star cs
      else c # replace_star_star (d # cs))"

fun replace_star :: "string \<Rightarrow> string" where
  "replace_star [] = []"
| "replace_star (c # cs) =
     (if c = CHR ''*'' then ''[^/]*'' @ replace_star cs else c # replace_star cs)"

fun replace_qmark :: "string \<Rightarrow> string" where
  "replace_qmark [] = []"
| "replace_qmark (c # cs) =
     (if c = CHR ''?'' then ''.'' @ replace_qmark cs else c # replace_qmark cs)"

section \<open>Regular expressions\<close>

text \<open>
  The values of \<open>error\<close> are the outcomes of \<open>new RegExp\<close> other than a matcher:
  \<open>SyntaxError\<close> is the exception that it throws; \<open>Unmodelled\<close> is not thrown by the code but
  says that the model does not cover the pattern.

  \<open>new RegExp(pattern)\<close> either returns a matcher or throws a \<open>SyntaxError\<close>.  The model
  parses the pattern syntax of JavaScript without the \<open>u\<close> flag: alternation, groups
  (capturing and \<open>(?:\<close>), the quantifiers \<open>*\<close>, \<open>+\<close>, \<open>?\<close> and their lazy forms, \<open>.\<close>, \<open>^\<close>,
  \<open>$\<close>, \<open>\b\<close>, \<open>\B\<close>, character classes with ranges, the class escapes \<open>\d \w \s\<close>, control
  escapes and identity escapes.  Patterns that use anything else of the language (look-around
  and named groups, braced quantifiers, back references, octal, hexadecimal, unicode and
  control-letter escapes) are answered with \<open>Unmodelled\<close>; a statement below that holds for
  modelled patterns only says so with a hypothesis.
\<close>

datatype error = SyntaxError | Unmodelled

datatype cset = Digit | WordChar | Space

datatype class_item = CRange char char | CEsc cset bool

datatype regex =
    Empty
  | Chr char
  | AnyChar
  | CharClass bool "class_item list"
  | WordBoundary bool
  | LineStart
  | LineEnd
  | Seq regex regex
  | Alt regex regex
  | Star regex

subsection \<open>Parsing a pattern\<close>

definition control_escape :: "char \<Rightarrow> char option" where
  "control_escape e =
     map_of [(CHR ''n'', CHR 0x0A), (CHR ''r'', CHR 0x0D), (CHR ''t'', CHR 0x09),
             (CHR ''f'', CHR 0x0C), (CHR ''v'', CHR 0x0B)] e"

definition class_escape :: "char \<Rightarrow> class_item option" where
  "class_escape e =
     map_of [(CHR ''d'', CEsc Digit False), (CHR ''D'', CEsc Digit True),
             (CHR ''w'', CEsc WordChar False), (CHR ''W'', CEsc WordChar True),
             (CHR ''s'', CEsc Space False), (CHR ''S'', CEsc Space True)] e"

definition unmodelled_escape :: "char \<Rightarrow> bool" where
  "unmodelled_escape e = (is_digit e \<or> e \<in> set ''xuck'')"

text \<open>The character or class that \<open>\e\<close> stands for, \<open>\b\<close> and \<open>\B\<close> apart.\<close>

definition escape_item :: "char \<Rightarrow> error + class_item" where
  "escape_item e =
     (if unmodelled_escape e then Inl Unmodelled
      else (case class_escape e of
              Some it \<Rightarrow> Inr it
            | None \<Rightarrow> (case control_escape e of
                         Some c \<Rightarrow> Inr (CRange c c)
                       | None \<Rightarrow> Inr (CRange e e))))"

text \<open>One atom of a character class; inside a class \<open>\b\<close> is the backspace character.\<close>

fun class_atom :: "string \<Rightarrow> error + (class_item \<times> string)" where
  "class_atom [] = Inl SyntaxError"
| "class_atom [c] = (if c = bslash then Inl SyntaxError else Inr (CRange c c, []))"
| "class_atom (c # e # cs) =
     (if c = bslash then
        (if e = CHR ''b'' then Inr (CRange (CHR 0x08) (CHR 0x08), cs)
         else (case escape_item e of Inl err \<Rightarrow> Inl err | Inr it \<Rightarrow> Inr (it, cs)))
      else Inr (CRange c c, e # cs))"

text \<open>
  \<open>a-b\<close> inside a class: a range when both ends are single characters (out of order is a
  syntax error), and the three items \<open>a\<close>, \<open>-\<close>, \<open>b\<close> when an end is a class escape.
\<close>

fun class_range :: "class_item \<Rightarrow> class_item \<Rightarrow> error + class_item list" where
  "class_range (CRange a a') (CRange b b') =
     (if (of_char a' :: nat) \<le> of_char b then Inr [CRange a b'] else Inl SyntaxError)"
| "class_range x y = Inr [y, CRange (CHR ''-'') (CHR ''-''), x]"

lemma class_atom_shorter: "class_atom s = Inr (a, rest) \<Longrightarrow> length rest < length s"
  by (induction s rule: class_atom.induct) (auto split: if_splits sum.splits)

function parse_class :: "class_item list \<Rightarrow> string \<Rightarrow> error + (class_item list \<times> string)" where
  "parse_class acc [] = Inl SyntaxError"
| "parse_class acc (c # cs) =
     (if c = CHR '']'' then Inr (rev acc, cs)
      else (case class_atom (c # cs) of
              Inl e \<Rightarrow> Inl e
            | Inr (a, rest) \<Rightarrow>
                (if startsWith rest ''-'' \<and> \<not> startsWith rest ''-]'' \<and> length rest > 1 then
                   (case class_atom (tl rest) of
                      Inl e \<Rightarrow> Inl e
                    | Inr (b, rest') \<Rightarrow>
                        (case class_range a b of
                           Inl e \<Rightarrow> Inl e
                         | Inr items \<Rightarrow> parse_class (items @ acc) rest'))
                 else parse_class (a # acc) rest)))"
  by pat_completeness auto
termination
proof (relation "measure (\<lambda>(acc, s). length s)", goal_cases)
  case 1
  show ?case by simp
next
  case (2 acc c cs x a rest y b rest' items)
  have "length rest < length (c # cs)"
    using 2 class_atom_shorter by metis
  moreover have "length rest' < length (tl rest)"
    using 2 class_atom_shorter by metis
  ultimately show ?case by simp
next
  case (3 acc c cs x a rest)
  then show ?case using class_atom_shorter by fastforce
qed

lemma parse_class_shorter: "parse_class acc s = Inr (items, rest) \<Longrightarrow> length rest < length s"
proof (induction acc s rule: parse_class.induct)
  case (1 acc)
  then show ?case by simp
next
  case (2 acc c cs)
  show ?case
  proof (cases "c = CHR '']''")
    case True
    with "2.prems" show ?thesis by auto
  next
    case False
    from False "2.prems" obtain a r where at: "class_atom (c # cs) = Inr (a, r)"
      by (auto split: sum.splits)
    have r: "length r < length (c # cs)"
      using class_atom_shorter [OF at] .
    show ?thesis
    proof (cases "startsWith r ''-'' \<and> \<not> startsWith r ''-]'' \<and> length r > 1")
      case True
      with False at "2.prems" obtain b r' items' where
        bt: "class_atom (tl r) = Inr (b, r')" and cr: "class_range a b = Inr items'"
        and rec: "parse_class (items' @ acc) r' = Inr (items, rest)"
        by (auto split: sum.splits)
      have "length rest < length r'"
        using "2.IH"(1) [OF False at refl True bt refl cr rec] .
      moreover have "length r' < length (tl r)"
        using class_atom_shorter [OF bt] .
      ultimately show ?thesis using r by simp
    next
      case nr: False
      with False at "2.prems" have rec: "parse_class (a # acc) r = Inr (items, rest)"
        by (auto split: sum.splits)
      have "length rest < length r"
        using "2.IH"(2) [OF False at refl nr rec] .
      then show ?thesis using r by simp
    qed
  qed
qed

text \<open>
  The pattern is read from the left.  \<open>stk\<close> holds, for every group that is still open, the
  alternatives and the sequence read before it; \<open>alts\<close> are the finished alternatives of the
  innermost group and \<open>sq\<close> is its current sequence, both latest first.  \<open>lt\<close> says whether
  a quantifier may follow: after an atom it may, after a quantifier only the lazy mark \<open>?\<close>
  may, and after an assertion, at the start of an alternative or after a lazy mark nothing
  ("nothing to repeat").
\<close>

datatype last_term = NoAtom | Atom | Quantified

type_synonym frame = "regex list \<times> regex list"

definition mk_seq :: "regex list \<Rightarrow> regex" where
  "mk_seq sq = foldl (\<lambda>acc r. Seq r acc) Empty sq"

definition mk_alt :: "regex list \<Rightarrow> regex \<Rightarrow> regex" where
  "mk_alt alts r = foldl (\<lambda>acc a. Alt a acc) r alts"

definition quantify :: "char \<Rightarrow> regex \<Rightarrow> regex" where
  "quantify q r =
     (if q = CHR ''*'' then Star r else if q = CHR ''+'' then Seq r (Star r) else Alt r Empty)"

definition item_regex :: "class_item \<Rightarrow> regex" where
  "item_regex it = (case it of CRange a b \<Rightarrow> if a = b then Chr a else CharClass False [it]
                            | CEsc k n \<Rightarrow> CharClass False [it])"

text \<open>
  Whether the text after a \<open>{\<close> completes a braced quantifier \<open>{n}\<close>, \<open>{n,}\<close> or \<open>{n,m}\<close>;
  any other \<open>{\<close> is an ordinary character.
\<close>

definition braced_quantifier :: "string \<Rightarrow> bool" where
  "braced_quantifier cs =
     (let r = dropWhile is_digit cs
      in r \<noteq> cs \<and> (startsWith r ''}'' \<or>
           (startsWith r '','' \<and> startsWith (dropWhile is_digit (tl r)) ''}'')))"

function parse :: "frame list \<Rightarrow> regex list \<Rightarrow> regex list \<Rightarrow> last_term \<Rightarrow> string \<Rightarrow> error + regex" where
  "parse stk alts sq lt [] =
     (if stk = [] then Inr (mk_alt alts (mk_seq sq)) else Inl SyntaxError)"
| "parse stk alts sq lt (c # cs) =
     (if c = CHR ''|'' then parse stk (mk_seq sq # alts) [] NoAtom cs
      else if c = CHR ''('' then
        (if startsWith cs ''?:'' then parse ((alts, sq) # stk) [] [] NoAtom (drop 2 cs)
         else if startsWith cs ''?'' then Inl Unmodelled
         else parse ((alts, sq) # stk) [] [] NoAtom cs)
      else if c = CHR '')'' then
        (case stk of
           [] \<Rightarrow> Inl SyntaxError
         | (alts', sq') # stk' \<Rightarrow> parse stk' alts' (mk_alt alts (mk_seq sq) # sq') Atom cs)
      else if c = CHR ''*'' \<or> c = CHR ''+'' \<or> c = CHR ''?'' then
        (case lt of
           NoAtom \<Rightarrow> Inl SyntaxError
         | Atom \<Rightarrow> (case sq of
                      [] \<Rightarrow> Inl SyntaxError
                    | r # rs \<Rightarrow> parse stk alts (quantify c r # rs) Quantified cs)
         | Quantified \<Rightarrow>
             (if c = CHR ''?'' then parse stk alts sq NoAtom cs else Inl SyntaxError))
      else if c = CHR ''{'' \<and> braced_quantifier cs then Inl Unmodelled
      else if c = CHR ''.'' then parse stk alts (AnyChar # sq) Atom cs
      else if c = CHR ''^'' then parse stk alts (LineStart # sq) NoAtom cs
      else if c = CHR ''$'' then parse stk alts (LineEnd # sq) NoAtom cs
      else if c = CHR ''['' then
        (case parse_class [] (if startsWith cs ''^'' then tl cs else cs) of
           Inl e \<Rightarrow> Inl e
         | Inr (items, rest) \<Rightarrow>
             parse stk alts (CharClass (startsWith cs ''^'') items # sq) Atom rest)
      else if c = bslash then
        (case cs of
           [] \<Rightarrow> Inl SyntaxError
         | e # cs' \<Rightarrow>
             (if e = CHR ''b'' then parse stk alts (WordBoundary False # sq) NoAtom cs'
              else if e = CHR ''B'' then parse stk alts (WordBoundary True # sq) NoAtom cs'
              else (case escape_item e of
                      Inl err \<Rightarrow> Inl err
                    | Inr it \<Rightarrow> parse stk alts (item_regex it # sq) Atom cs')))
      else parse stk alts (Chr c # sq) Atom cs)"
  by pat_completeness auto
termination
  by (relation "measure (\<lambda>(stk, alts, sq, lt, s). length s)")
     (auto split: if_splits dest!: parse_class_shorter)

definition RegExp :: "string \<Rightarrow> error + regex" where
  "RegExp pattern = parse [] [] [] NoAtom pattern"

subsection \<open>Matching\<close>

text \<open>
  A position in the subject is the character before it, if any, and the text after it.
  \<open>step\<close> lists the positions at which a match of the expression that starts at the given
  position can end.  Without the \<open>m\<close> flag \<open>^\<close> and \<open>$\<close> match at the two ends of the subject
  only; with the \<open>i\<close> flag characters are compared by their upper-case forms.
\<close>

type_synonym pos = "char option \<times> string"

definition canon :: "bool \<Rightarrow> char \<Rightarrow> char" where
  "canon ic c = (if ic then upper_char c else c)"

definition in_cset :: "cset \<Rightarrow> char \<Rightarrow> bool" where
  "in_cset k c = (case k of Digit \<Rightarrow> is_digit c | WordChar \<Rightarrow> is_word_char c | Space \<Rightarrow> is_space c)"

definition in_range :: "char \<Rightarrow> char \<Rightarrow> char \<Rightarrow> bool" where
  "in_range a b c = ((of_char a :: nat) \<le> of_char c \<and> (of_char c :: nat) \<le> of_char b)"

fun in_item :: "bool \<Rightarrow> class_item \<Rightarrow> char \<Rightarrow> bool" where
  "in_item ic (CRange a b) c =
     (in_range a b c \<or> (ic \<and> (in_range a b (upper_char c) \<or> in_range a b (lower_char c))))"
| "in_item ic (CEsc k neg) c = (in_cset k c \<noteq> neg)"

definition is_word_boundary :: "pos \<Rightarrow> bool" where
  "is_word_boundary p =
     ((case fst p of None \<Rightarrow> False | Some c \<Rightarrow> is_word_char c) \<noteq>
      (case snd p of [] \<Rightarrow> False | c # cs \<Rightarrow> is_word_char c))"

fun consume :: "(char \<Rightarrow> bool) \<Rightarrow> pos \<Rightarrow> pos list" where
  "consume P (prev, []) = []"
| "consume P (prev, c # cs) = (if P c then [(Some c, cs)] else [])"

text \<open>
  Zero or more rounds of \<open>f\<close>, each of which consumes at least one character (a round that
  consumes nothing is rejected by the matcher); \<open>n\<close> bounds the number of rounds and is the
  length of the remaining text.
\<close>

primrec star_iter :: "(pos \<Rightarrow> pos list) \<Rightarrow> nat \<Rightarrow> pos \<Rightarrow> pos list" where
  "star_iter f 0 p = [p]"
| "star_iter f (Suc n) p =
     p # concat (map (star_iter f n) (filter (\<lambda>q. length (snd q) < length (snd p)) (f p)))"

primrec step :: "bool \<Rightarrow> regex \<Rightarrow> pos \<Rightarrow> pos list" where
  "step ic Empty p = [p]"
| "step ic (Chr c) p = consume (\<lambda>x. canon ic x = canon ic c) p"
| "step ic AnyChar p = consume (\<lambda>x. \<not> is_line_terminator x) p"
| "step ic (CharClass neg items) p = consume (\<lambda>x. (\<exists>it \<in> set items. in_item ic it x) \<noteq> neg) p"
| "step ic (WordBoundary neg) p = (if is_word_boundary p \<noteq> neg then [p] else [])"
| "step ic LineStart p = (if fst p = None then [p] else [])"
| "step ic LineEnd p = (if snd p = [] then [p] else [])"
| "step ic (Seq r1 r2) p = concat (map (step ic r2) (step ic r1 p))"
| "step ic (Alt r1 r2) p = step ic r1 p @ step ic r2 p"
| "step ic (Star r) p = star_iter (step ic r) (length (snd p)) p"

text \<open>\<open>regex.test(s)\<close>: a match may start at any position of \<open>s\<close>.\<close>

fun test_from :: "bool \<Rightarrow> regex \<Rightarrow> char option \<Rightarrow> string \<Rightarrow> bool" where
  "test_from ic r prev [] = (step ic r (prev, []) \<noteq> [])"
| "test_from ic r prev (c # cs) = (step ic r (prev, c # cs) \<noteq> [] \<or> test_from ic r (Some c) cs)"

definition test :: "bool \<Rightarrow> regex \<Rightarrow> string \<Rightarrow> bool" where
  "test ic r s = test_from ic r None s"

section \<open>The index: data model\<close>

text \<open>
  The interfaces \<open>IndexedFile\<close>, \<open>SearchResult\<close> and \<open>Citation\<close>.  The fields of a search
  result carry the prefix \<open>r_\<close> and those of a citation the prefix \<open>c_\<close>, since the three
  interfaces share field names.  Line numbers and \<open>maxResults\<close> are JavaScript numbers
  that hold integers, and every statement about them is one about integers; a score is the
  exact rational value of the number that the code computes in floating point.
\<close>

datatype file_type = Example | Doc | Template | Other

record Metadata =
  title :: "string option"
  shortTitle :: "string option"
  documentation :: "string option"
  exampleStart :: "int option"
  exampleEnd :: "int option"

record IndexedFile =
  path :: string
  relativePath :: string
  content :: string
  lines :: "string list"
  lineOffsets :: "nat list"
  type :: file_type
  metadata :: "Metadata option"

record SearchResult =
  r_path :: string
  r_relativePath :: string
  r_lineStart :: int
  r_lineEnd :: int
  r_excerpt :: string
  r_score :: rat
  r_type :: file_type

record Citation =
  c_path :: string
  c_lineStart :: int
  c_lineEnd :: int
  c_excerpt :: string
  c_reason :: "string option"

datatype SearchScope = Docs | Examples | DocsAndExamples | All

record SearchOptions =
  maxResults :: "int option"
  scope :: "SearchScope option"
  fileGlobs :: "string list option"

text \<open>
  A JavaScript \<open>Map\<close> keeps its keys in the order of their first insertion; \<open>set\<close> on a key
  that is present replaces the value in place.  A \<open>Set\<close> of strings is kept the same way.
\<close>

fun map_set :: "'k \<Rightarrow> 'v \<Rightarrow> ('k \<times> 'v) list \<Rightarrow> ('k \<times> 'v) list" where
  "map_set k v [] = [(k, v)]"
| "map_set k v ((k', v') # m) = (if k' = k then (k, v) # m else (k', v') # map_set k v m)"

definition set_add :: "'a \<Rightarrow> 'a list \<Rightarrow> 'a list" where
  "set_add x xs = (if x \<in> set xs then xs else xs @ [x])"

record DocassembleIndex =
  files :: "(string \<times> IndexedFile) list"
  examplesByName :: "(string \<times> IndexedFile) list"
  keywordIndex :: "(string \<times> string list) list"
  basePath :: string
  initialized :: bool

definition new_DocassembleIndex :: "string \<Rightarrow> DocassembleIndex" where
  "new_DocassembleIndex base =
     \<lparr>files = [], examplesByName = [], keywordIndex = [], basePath = base, initialized = False\<rparr>"

section \<open>The query engine\<close>

definition matchesScope :: "file_type \<Rightarrow> SearchScope \<Rightarrow> bool" where
  "matchesScope t sc =
     (case sc of
        Docs \<Rightarrow> t = Doc
      | Examples \<Rightarrow> t = Example
      | DocsAndExamples \<Rightarrow> t = Doc \<or> t = Example
      | All \<Rightarrow> True)"

definition glob_pattern :: "string \<Rightarrow> string" where
  "glob_pattern glob = replace_qmark (replace_star (replace_star_star glob))"

fun matchesGlobs :: "string \<Rightarrow> string list \<Rightarrow> error + bool" where
  "matchesGlobs rp [] = Inr False"
| "matchesGlobs rp (glob # globs) =
     (case RegExp (glob_pattern glob) of
        Inl e \<Rightarrow> Inl e
      | Inr r \<Rightarrow> if test False r rp then Inr True else matchesGlobs rp globs)"

text \<open>The pattern \<open>`\\b${term}\\b`\<close>.\<close>

definition word_pattern :: "string \<Rightarrow> string" where
  "word_pattern t = [bslash, CHR ''b''] @ t @ [bslash, CHR ''b'']"

text \<open>
  The loop over the query terms for one lower-cased line; the pair is \<open>score\<close> and
  \<open>matchedTerms\<close>.
\<close>

fun scoreTerms :: "string \<Rightarrow> string list \<Rightarrow> rat \<times> nat \<Rightarrow> error + (rat \<times> nat)" where
  "scoreTerms lineLower [] acc = Inr acc"
| "scoreTerms lineLower (t # ts) (score, matchedTerms) =
     (if includesStr lineLower t then
        (case RegExp (word_pattern t) of
           Inl e \<Rightarrow> Inl e
         | Inr r \<Rightarrow>
             scoreTerms lineLower ts
               (score + 10 + (if startsWith lineLower (t @ '':'') then 20 else 0)
                      + (if test False r lineLower then 5 else 0),
                matchedTerms + 1))
      else scoreTerms lineLower ts (score, matchedTerms))"

text \<open>The loop that adds 15 for every query term found in the lower-cased title.\<close>

fun titleBonus :: "string \<Rightarrow> string list \<Rightarrow> rat \<Rightarrow> rat" where
  "titleBonus titleLower [] score = score"
| "titleBonus titleLower (t # ts) score =
     titleBonus titleLower ts (if includesStr titleLower t then score + 15 else score)"

text \<open>\<open>file.metadata?.title\<close> when it is truthy: a title that is present and not empty.\<close>

definition truthy_title :: "IndexedFile \<Rightarrow> string option" where
  "truthy_title file =
     (case metadata file of
        None \<Rightarrow> None
      | Some m \<Rightarrow> (case title m of None \<Rightarrow> None | Some t \<Rightarrow> if t = [] then None else Some t))"

text \<open>The hit that \<open>findMatches\<close> pushes for line \<open>i\<close> (counted from 0).\<close>

definition mkHit :: "IndexedFile \<Rightarrow> string list \<Rightarrow> nat \<Rightarrow> rat \<Rightarrow> nat \<Rightarrow> SearchResult" where
  "mkHit file queryTerms i score matchedTerms =
     (let contextStart = max 0 (int i - 2);
          contextEnd = min (int (length (lines file)) - 1) (int i + 5);
          excerpt = join [newline] (slice (lines file) contextStart (contextEnd + 1));
          score1 = score + of_nat matchedTerms / of_nat (length queryTerms) * 10;
          score2 = (case truthy_title file of
                      None \<Rightarrow> score1
                    | Some t \<Rightarrow> titleBonus (toLowerCase t) queryTerms score1)
      in \<lparr>r_path = path file, r_relativePath = relativePath file,
          r_lineStart = contextStart + 1, r_lineEnd = contextEnd + 1,
          r_excerpt = excerpt, r_score = score2, r_type = type file\<rparr>)"

text \<open>The loop over the lines of the file; \<open>ls\<close> are the lines from index \<open>i\<close> on.\<close>

fun lineHits :: "IndexedFile \<Rightarrow> string list \<Rightarrow> nat \<Rightarrow> string list \<Rightarrow> error + SearchResult list" where
  "lineHits file queryTerms i [] = Inr []"
| "lineHits file queryTerms i (l # ls) =
     (case scoreTerms (toLowerCase l) queryTerms (0, 0) of
        Inl e \<Rightarrow> Inl e
      | Inr (score, matchedTerms) \<Rightarrow>
          (case lineHits file queryTerms (i + 1) ls of
             Inl e \<Rightarrow> Inl e
           | Inr hits \<Rightarrow>
               Inr ((if matchedTerms > 0 then [mkHit file queryTerms i score matchedTerms] else [])
                    @ hits)))"

text \<open>Numbers in a template literal: the decimal digits, with a sign when negative.\<close>

fun show_nat :: "nat \<Rightarrow> string" where
  "show_nat n =
     (if n < 10 then [digit_chars ! n] else show_nat (n div 10) @ [digit_chars ! (n mod 10)])"

declare show_nat.simps [simp del]

definition show_int :: "int \<Rightarrow> string" where
  "show_int i = (if i < 0 then CHR ''-'' # show_nat (nat (- i)) else show_nat (nat i))"

text \<open>The key \<open>`${result.relativePath}:${Math.floor(result.lineStart / 10)}`\<close>.\<close>

definition rangeKey :: "SearchResult \<Rightarrow> string" where
  "rangeKey r = r_relativePath r @ '':'' @ show_int (r_lineStart r div 10)"

text \<open>
  \<open>Array.prototype.sort\<close> is stable; with the comparator \<open>b.score - a.score\<close> it sorts by
  descending score and keeps the order of hits that have the same score.
\<close>

definition sortByScore :: "SearchResult list \<Rightarrow> SearchResult list" where
  "sortByScore rs = sort_key (\<lambda>r. - r_score r) rs"

fun dedupe :: "string set \<Rightarrow> SearchResult list \<Rightarrow> SearchResult list" where
  "dedupe seenRanges [] = []"
| "dedupe seenRanges (r # rs) =
     (if rangeKey r \<in> seenRanges then dedupe seenRanges rs
      else r # dedupe (insert (rangeKey r) seenRanges) rs)"

definition findMatches :: "IndexedFile \<Rightarrow> string list \<Rightarrow> error + SearchResult list" where
  "findMatches file queryTerms =
     (case lineHits file queryTerms 0 (lines file) of
        Inl e \<Rightarrow> Inl e
      | Inr results \<Rightarrow> Inr (dedupe {} (sortByScore results)))"

definition queryTermsOf :: "string \<Rightarrow> string list" where
  "queryTermsOf query = filter (\<lambda>t. length t > 0) (split_ws False [] (toLowerCase query))"

text \<open>The loop of \<open>search\<close> over the file table, in the order of the table.\<close>

fun searchFiles :: "SearchScope \<Rightarrow> string list option \<Rightarrow> string list \<Rightarrow>
    (string \<times> IndexedFile) list \<Rightarrow> error + SearchResult list" where
  "searchFiles sc globs queryTerms [] = Inr []"
| "searchFiles sc globs queryTerms ((rp, file) # rest) =
     (if \<not> matchesScope (type file) sc then searchFiles sc globs queryTerms rest
      else (case (case globs of None \<Rightarrow> Inr True | Some gs \<Rightarrow> matchesGlobs rp gs) of
              Inl e \<Rightarrow> Inl e
            | Inr ok \<Rightarrow>
                if \<not> ok then searchFiles sc globs queryTerms rest
                else (case findMatches file queryTerms of
                        Inl e \<Rightarrow> Inl e
                      | Inr matches \<Rightarrow>
                          (case searchFiles sc globs queryTerms rest of
                             Inl e \<Rightarrow> Inl e
                           | Inr others \<Rightarrow> Inr (matches @ others)))))"

definition search :: "DocassembleIndex \<Rightarrow> string \<Rightarrow> SearchOptions \<Rightarrow> error + SearchResult list" where
  "search idx query options =
     (let maxR = (case maxResults options of None \<Rightarrow> 8 | Some m \<Rightarrow> m);
          sc = (case scope options of None \<Rightarrow> DocsAndExamples | Some s \<Rightarrow> s)
      in (case searchFiles sc (fileGlobs options) (queryTermsOf query) (files idx) of
            Inl e \<Rightarrow> Inl e
          | Inr results \<Rightarrow> Inr (slice (sortByScore results) 0 maxR)))"

text \<open>
  The array \<open>results\<close> of \<open>search\<close> as it stands after \<open>results.sort\<close>, before
  \<open>results.slice(0, maxResults)\<close> cuts it.
\<close>

definition rankedResults :: "DocassembleIndex \<Rightarrow> string \<Rightarrow> SearchOptions \<Rightarrow> error + SearchResult list" where
  "rankedResults idx query options =
     (let sc = (case scope options of None \<Rightarrow> DocsAndExamples | Some s \<Rightarrow> s)
      in (case searchFiles sc (fileGlobs options) (queryTermsOf query) (files idx) of
            Inl e \<Rightarrow> Inl e
          | Inr results \<Rightarrow> Inr (sortByScore results)))"

section \<open>Lookups, citations and statistics\<close>

definition getFile :: "DocassembleIndex \<Rightarrow> string \<Rightarrow> IndexedFile option" where
  "getFile idx rp = map_of (files idx) rp"

definition getExampleByName :: "DocassembleIndex \<Rightarrow> string \<Rightarrow> IndexedFile option" where
  "getExampleByName idx name = map_of (examplesByName idx) name"

definition getAllExamples :: "DocassembleIndex \<Rightarrow> IndexedFile list" where
  "getAllExamples idx = filter (\<lambda>f. type f = Example) (map snd (files idx))"

definition getAllFiles :: "DocassembleIndex \<Rightarrow> IndexedFile list" where
  "getAllFiles idx = map snd (files idx)"

definition getSnippet :: "DocassembleIndex \<Rightarrow> string \<Rightarrow> int \<Rightarrow> int \<Rightarrow> string option" where
  "getSnippet idx rp lineStart lineEnd =
     (case map_of (files idx) rp of
        None \<Rightarrow> None
      | Some file \<Rightarrow>
          (let start = max 0 (lineStart - 1);
               end = min (int (length (lines file))) lineEnd
           in Some (join [newline] (slice (lines file) start end))))"

text \<open>\<open>!excerpt\<close> holds for \<open>null\<close> and for the empty string.\<close>

definition createCitation ::
    "DocassembleIndex \<Rightarrow> string \<Rightarrow> int \<Rightarrow> int \<Rightarrow> string option \<Rightarrow> Citation option" where
  "createCitation idx rp lineStart lineEnd reason =
     (case map_of (files idx) rp of
        None \<Rightarrow> None
      | Some file \<Rightarrow>
          (case getSnippet idx rp lineStart lineEnd of
             None \<Rightarrow> None
           | Some excerpt \<Rightarrow>
               if excerpt = [] then None
               else Some \<lparr>c_path = rp, c_lineStart = lineStart, c_lineEnd = lineEnd,
                          c_excerpt = excerpt, c_reason = reason\<rparr>))"

record Stats =
  totalFiles :: nat
  examples :: nat
  docs :: nat
  templates :: nat
  keywordCount :: nat

fun countTypes :: "IndexedFile list \<Rightarrow> nat \<times> nat \<times> nat \<Rightarrow> nat \<times> nat \<times> nat" where
  "countTypes [] acc = acc"
| "countTypes (f # fs) (ex, dc, tp) =
     countTypes fs
       (case type f of
          Example \<Rightarrow> (ex + 1, dc, tp)
        | Doc \<Rightarrow> (ex, dc + 1, tp)
        | Template \<Rightarrow> (ex, dc, tp + 1)
        | Other \<Rightarrow> (ex, dc, tp))"

definition getStats :: "DocassembleIndex \<Rightarrow> Stats" where
  "getStats idx =
     (case countTypes (map snd (files idx)) (0, 0, 0) of
        (ex, dc, tp) \<Rightarrow>
          \<lparr>totalFiles = length (files idx), examples = ex, docs = dc, templates = tp,
           keywordCount = length (keywordIndex idx)\<rparr>)"

section \<open>Ingestion\<close>

text \<open>
  The file system as \<open>initialize\<close> sees it.  A regular file carries its text, or \<open>None\<close>
  when \<open>readFileSync\<close> fails on it; a directory carries its entries in the order of
  \<open>readdirSync\<close>; \<open>LockedDir\<close> is a directory that \<open>readdirSync\<close> cannot read; \<open>OtherNode\<close>
  is an entry that is neither a file nor a directory.  A file system maps a path to the
  tree found there, if any.
\<close>

datatype node =
    FileNode "string option"
  | DirNode "(string \<times> node) list"
  | LockedDir
  | OtherNode

text \<open>What \<open>initialize\<close> can throw: an error of the file system, or one of \<open>new RegExp\<close>.\<close>

datatype init_error = IOError | RegExpError error

type_synonym file_system = "string \<Rightarrow> node option"

text \<open>
  \<open>path.join\<close>, \<open>path.relative\<close>, \<open>path.extname\<close> and \<open>path.basename\<close> on normalised POSIX
  paths: the first argument of \<open>path_join\<close> has no trailing separator, and \<open>path_relative\<close>
  is applied to a path below its base.
\<close>

definition path_join :: "string \<Rightarrow> string \<Rightarrow> string" where
  "path_join a b = a @ ''/'' @ b"

definition path_relative :: "string \<Rightarrow> string \<Rightarrow> string" where
  "path_relative base p = (if startsWith p (base @ ''/'') then drop (length base + 1) p else p)"

definition endsWith :: "string \<Rightarrow> string \<Rightarrow> bool" where
  "endsWith s suffix = startsWith (rev s) (rev suffix)"

definition last_component :: "string \<Rightarrow> string" where
  "last_component p = last (split (CHR ''/'') p)"

text \<open>
  The extension runs from the last dot of the last component to its end; there is none
  when the component has no dot, when its only dot is its first character, and for \<open>..\<close>.
\<close>

definition extname :: "string \<Rightarrow> string" where
  "extname p =
     (let name = last_component p;
          stem = dropWhile (\<lambda>c. c \<noteq> CHR ''.'') (rev name)
      in if stem = [] \<or> length stem = 1 \<or> name = ''..'' then []
         else drop (length stem - 1) name)"

definition basename :: "string \<Rightarrow> string \<Rightarrow> string" where
  "basename p ext =
     (let name = last_component p
      in if ext \<noteq> [] \<and> ext \<noteq> name \<and> endsWith name ext
         then take (length name - length ext) name else name)"

text \<open>The offsets that \<open>indexFile\<close> records: each line starts one past the end of the last.\<close>

fun offsets :: "nat \<Rightarrow> string list \<Rightarrow> nat list" where
  "offsets offset [] = []"
| "offsets offset (l # ls) = offset # offsets (offset + length l + 1) ls"

text \<open>
  \<open>indexFile\<close>.  \<open>extractMetadata\<close> is a parameter of the model: every statement below
  holds for any function from the text of a file to its metadata.  \<open>indexedFileOf\<close> is the
  object that \<open>indexFile\<close> builds from the text that it has read.  When the file cannot
  be read the exception is caught and the index is left as it is.
\<close>

definition indexedFileOf ::
    "(string \<Rightarrow> Metadata) \<Rightarrow> string \<Rightarrow> string \<Rightarrow> string \<Rightarrow> file_type \<Rightarrow> IndexedFile" where
  "indexedFileOf extractMetadata base filePath text t =
     (let ls = split newline text
      in \<lparr>path = filePath, relativePath = path_relative base filePath, content = text,
          lines = ls, lineOffsets = offsets 0 ls, type = t,
          metadata = Some (extractMetadata text)\<rparr>)"

definition indexFile ::
    "(string \<Rightarrow> Metadata) \<Rightarrow> DocassembleIndex \<Rightarrow> string \<Rightarrow> string option \<Rightarrow> file_type \<Rightarrow> DocassembleIndex" where
  "indexFile extractMetadata idx filePath readFile t =
     (case readFile of
        None \<Rightarrow> idx
      | Some text \<Rightarrow>
          (let indexedFile = indexedFileOf extractMetadata (basePath idx) filePath text t;
               idx1 = idx\<lparr>files := map_set (relativePath indexedFile) indexedFile (files idx)\<rparr>
           in if t = Example
              then idx1\<lparr>examplesByName :=
                     map_set (basename filePath (extname filePath)) indexedFile (examplesByName idx1)\<rparr>
              else idx1))"

definition accepted_name :: "string \<Rightarrow> bool" where
  "accepted_name name = (endsWith name ''.yml'' \<or> endsWith name ''.yaml'' \<or> endsWith name ''.md'')"

text \<open>
  \<open>indexDirectory\<close> on a path that exists (\<open>indexNode\<close>), and its loop over the entries
  (\<open>indexEntries\<close>).  \<open>readdirSync\<close> throws on anything that is not a readable directory.
\<close>

fun indexNode :: "(string \<Rightarrow> Metadata) \<Rightarrow> file_type \<Rightarrow> string \<Rightarrow> node \<Rightarrow> DocassembleIndex
      \<Rightarrow> init_error + DocassembleIndex"
  and indexEntries :: "(string \<Rightarrow> Metadata) \<Rightarrow> file_type \<Rightarrow> string \<Rightarrow> (string \<times> node) list
      \<Rightarrow> DocassembleIndex \<Rightarrow> init_error + DocassembleIndex" where
  "indexNode ex t dirPath (DirNode entries) idx = indexEntries ex t dirPath entries idx"
| "indexNode ex t dirPath (FileNode c) idx = Inl IOError"
| "indexNode ex t dirPath LockedDir idx = Inl IOError"
| "indexNode ex t dirPath OtherNode idx = Inl IOError"
| "indexEntries ex t dirPath [] idx = Inr idx"
| "indexEntries ex t dirPath ((name, n) # entries) idx =
     (case n of
        DirNode sub \<Rightarrow>
          (case indexNode ex t (path_join dirPath name) n idx of
             Inl e \<Rightarrow> Inl e
           | Inr idx1 \<Rightarrow> indexEntries ex t dirPath entries idx1)
      | LockedDir \<Rightarrow> Inl IOError
      | FileNode c \<Rightarrow>
          (if accepted_name name
           then indexEntries ex t dirPath entries (indexFile ex idx (path_join dirPath name) c t)
           else indexEntries ex t dirPath entries idx)
      | OtherNode \<Rightarrow> indexEntries ex t dirPath entries idx)"

definition indexDirectory :: "(string \<Rightarrow> Metadata) \<Rightarrow> file_system \<Rightarrow> DocassembleIndex \<Rightarrow> string
      \<Rightarrow> file_type \<Rightarrow> init_error + DocassembleIndex" where
  "indexDirectory ex fs idx dirPath t =
     (case fs dirPath of
        None \<Rightarrow> Inr idx
      | Some n \<Rightarrow> indexNode ex t dirPath n idx)"

subsection \<open>The keyword index\<close>

definition keywordList :: "string list" where
  "keywordList =
    [''question'', ''fields'', ''buttons'', ''choices'', ''mandatory'', ''code'',
     ''attachment'', ''attachments'', ''template'', ''content'', ''subquestion'', ''under'',
     ''help'', ''terms'', ''auto terms'', ''metadata'', ''include'', ''objects'', ''object'',
     ''generic object'', ''sets'', ''event'', ''action'', ''review'',
     ''continue button field'', ''signature'', ''yesno'', ''noyes'', ''yesnomaybe'',
     ''datatype'', ''default'', ''required'', ''validation code'', ''validation messages'',
     ''show if'', ''hide if'', ''js show if'', ''js hide if'', ''note'', ''html'', ''css'',
     ''script'', ''features'', ''sections'', ''progress'', ''table'', ''rows'', ''columns'',
     ''edit'', ''delete buttons'', ''confirm'', ''need'', ''depends on'',
     ''scan for variables'', ''initial'', ''default role'', ''role'', ''if'', ''else'',
     ''elif'', ''for'', ''while'', ''def'', ''class'', ''import'', ''from'', ''modules'',
     ''reset'', ''undefine'', ''reconsider'', ''force ask'', ''force gather'',
     ''interview help'', ''decoration'', ''image sets'', ''images'', ''audio'', ''video'',
     ''prevent going back'', ''back button'', ''corner back button'',
     ''continue button label'', ''resume button label'', ''exit'', ''restart'', ''leave'',
     ''refresh'', ''reload'', ''url args'', ''action argument'', ''action buttons'',
     ''background action'', ''background response'', ''background response action'',
     ''check in'', ''cron'', ''allow cron'', ''send email'', ''email'', ''sms'', ''twilio'',
     ''docx template file'', ''pdf template file'', ''variable name'', ''valid formats'',
     ''filename'', ''name'', ''description'', ''skip undefined'', ''pdf/a'', ''tagged pdf'',
     ''editable'', ''decimal places'', ''language'', ''translations'', ''words'', ''comment'',
     ''id'', ''supersedes'', ''order'', ''usedefs'', ''mako'', ''jinja2'', ''markdown'',
     ''raw'', ''target'', ''ga id'', ''segment id'', ''suppress loading'',
     ''suppress autofill'', ''autocomplete'', ''address autocomplete'', ''geocode'',
     ''object labeler'', ''instanceName'', ''DAList'', ''DADict'', ''DASet'', ''DAObject'',
     ''DAFile'', ''DAFileList'', ''DAFileCollection'', ''DAStaticFile'', ''DAEmail'',
     ''Individual'', ''Person'', ''Name'', ''Address'', ''LatitudeLongitude'',
     ''Organization'', ''Thing'', ''Event'', ''PeriodicValue'', ''Value'', ''OfficeList'',
     ''RoleChangeTracker'', ''DARedis'', ''DAStore'', ''DAGlobal'', ''DACloudStorage'',
     ''DAOAuth'', ''DAWeb'', ''DAContext'', ''DAEmpty'', ''DALazyTemplate'',
     ''DALazyTableTemplate'']"

text \<open>\<open>keyword.replace(/\s+/g, '\\s+')\<close> and the pattern built around it.\<close>

fun replace_ws :: "bool \<Rightarrow> string \<Rightarrow> string" where
  "replace_ws in_ws [] = []"
| "replace_ws in_ws (c # cs) =
     (if is_space c then (if in_ws then replace_ws True cs
                          else [bslash, CHR ''s'', CHR ''+''] @ replace_ws True cs)
      else c # replace_ws False cs)"

definition keyword_pattern :: "string \<Rightarrow> string" where
  "keyword_pattern keyword = [bslash, CHR ''b''] @ replace_ws False keyword @ [bslash, CHR ''b'']"

definition addKeyword :: "string \<Rightarrow> string \<Rightarrow> (string \<times> string list) list \<Rightarrow> (string \<times> string list) list" where
  "addKeyword k rp ki =
     (let ki1 = (if map_of ki k = None then map_set k [] ki else ki)
      in map_set k (set_add rp (case map_of ki1 k of None \<Rightarrow> [] | Some s \<Rightarrow> s)) ki1)"

fun keywordsOfFile :: "string \<Rightarrow> IndexedFile \<Rightarrow> string list \<Rightarrow> (string \<times> string list) list
      \<Rightarrow> error + (string \<times> string list) list" where
  "keywordsOfFile rp file [] ki = Inr ki"
| "keywordsOfFile rp file (keyword # rest) ki =
     (case RegExp (keyword_pattern keyword) of
        Inl e \<Rightarrow> Inl e
      | Inr r \<Rightarrow>
          keywordsOfFile rp file rest
            (if test True r (content file) then addKeyword (toLowerCase keyword) rp ki else ki))"

fun keywordsOfFiles :: "(string \<times> IndexedFile) list \<Rightarrow> (string \<times> string list) list
      \<Rightarrow> error + (string \<times> string list) list" where
  "keywordsOfFiles [] ki = Inr ki"
| "keywordsOfFiles ((rp, file) # rest) ki =
     (case keywordsOfFile rp file keywordList ki of
        Inl e \<Rightarrow> Inl e
      | Inr ki1 \<Rightarrow> keywordsOfFiles rest ki1)"

definition buildKeywordIndex :: "DocassembleIndex \<Rightarrow> error + DocassembleIndex" where
  "buildKeywordIndex idx =
     (case keywordsOfFiles (files idx) (keywordIndex idx) of
        Inl e \<Rightarrow> Inl e
      | Inr ki \<Rightarrow> Inr (idx\<lparr>keywordIndex := ki\<rparr>))"

subsection \<open>\<open>initialize\<close>\<close>

definition examplesPath :: "string \<Rightarrow> string" where
  "examplesPath base = path_join base ''docassemble_base/docassemble/base/data/questions/examples''"

definition demoQuestionsPath :: "string \<Rightarrow> string" where
  "demoQuestionsPath base = path_join base ''docassemble_demo/docassemble/demo/data/questions''"

definition templatesPath :: "string \<Rightarrow> string" where
  "templatesPath base = path_join base ''docassemble_base/docassemble/base/data/templates''"

text \<open>
  \<open>Inl\<close> is a rejected promise: an exception of \<open>readdirSync\<close> or of \<open>new RegExp\<close> leaves
  \<open>initialize\<close> before \<open>initialized\<close> is set.
\<close>

definition initialize ::
    "(string \<Rightarrow> Metadata) \<Rightarrow> file_system \<Rightarrow> DocassembleIndex \<Rightarrow> init_error + DocassembleIndex" where
  "initialize ex fs idx =
     (if initialized idx then Inr idx
      else (case indexDirectory ex fs idx (examplesPath (basePath idx)) Example of
              Inl e \<Rightarrow> Inl e
            | Inr idx1 \<Rightarrow>
                (case indexDirectory ex fs idx1 (demoQuestionsPath (basePath idx)) Example of
                   Inl e \<Rightarrow> Inl e
                 | Inr idx2 \<Rightarrow>
                     (case indexDirectory ex fs idx2 (templatesPath (basePath idx)) Template of
                        Inl e \<Rightarrow> Inl e
                      | Inr idx3 \<Rightarrow>
                          (case buildKeywordIndex idx3 of
                             Inl e \<Rightarrow> Inl (RegExpError e)
                           | Inr idx4 \<Rightarrow> Inr (idx4\<lparr>initialized := True\<rparr>))))))"

section \<open>Notions of the specification\<close>

text \<open>
  Lines \<open>a\<close> through \<open>b\<close> of a file, numbered from 1, and the range \<open>lineStart..lineEnd\<close>
  clamped to the bounds \<open>1..length\<close> of the file.
\<close>

definition lines_between :: "IndexedFile \<Rightarrow> int \<Rightarrow> int \<Rightarrow> string list" where
  "lines_between file a b = map (\<lambda>i. lines file ! nat (i - 1)) [a..b]"

definition clamped_lines :: "IndexedFile \<Rightarrow> int \<Rightarrow> int \<Rightarrow> string list" where
  "clamped_lines file lineStart lineEnd =
     lines_between file (max 1 lineStart) (min (int (length (lines file))) lineEnd)"

text \<open>
  Glob matching in the words of the specification, on the whole relative path: \<open>**\<close> stands
  for any sequence of characters, separators included, \<open>*\<close> for any sequence without a
  separator, and \<open>?\<close> for exactly one character.
\<close>

fun glob_matches :: "string \<Rightarrow> string \<Rightarrow> bool" where
  "glob_matches [] s = (s = [])"
| "glob_matches (g # gs) [] =
     (g = CHR ''*'' \<and> glob_matches (if startsWith gs ''*'' then tl gs else gs) [])"
| "glob_matches (g # gs) (c # cs) =
     (if g = CHR ''*'' then
        (if startsWith gs ''*''
         then glob_matches (tl gs) (c # cs) \<or> glob_matches (g # gs) cs
         else glob_matches gs (c # cs) \<or> (c \<noteq> CHR ''/'' \<and> glob_matches (g # gs) cs))
      else if g = CHR ''?'' then glob_matches gs cs
      else c = g \<and> glob_matches gs cs)"

text \<open>
  A term matches at a word boundary in a line when it occurs there with a word boundary
  at its start and at its end.
\<close>

definition last_of :: "char option \<Rightarrow> string \<Rightarrow> char option" where
  "last_of prev t = (if t = [] then prev else Some (last t))"

definition whole_word_at :: "char option \<Rightarrow> string \<Rightarrow> string \<Rightarrow> bool" where
  "whole_word_at prev rest t =
     (startsWith rest t \<and> is_word_boundary (prev, rest)
      \<and> is_word_boundary (last_of prev t, drop (length t) rest))"

fun whole_word_from :: "char option \<Rightarrow> string \<Rightarrow> string \<Rightarrow> bool" where
  "whole_word_from prev [] t = whole_word_at prev [] t"
| "whole_word_from prev (c # cs) t = (whole_word_at prev (c # cs) t \<or> whole_word_from (Some c) cs t)"

definition whole_word :: "string \<Rightarrow> string \<Rightarrow> bool" where
  "whole_word l t = whole_word_from None l t"

text \<open>
  The score of a line in the words of the specification: 10 for each query term that
  occurs in the lower-cased line, 20 more for each such term followed by a colon at the
  start of the line, 5 more for each such term that matches at a word boundary, the
  coverage bonus, and 15 for each query term that occurs in the lower-cased title.  A
  line in which no term occurs has no score.
\<close>

definition count :: "('a \<Rightarrow> bool) \<Rightarrow> 'a list \<Rightarrow> rat" where
  "count P xs = of_nat (length (filter P xs))"

definition spec_score :: "IndexedFile \<Rightarrow> string \<Rightarrow> string list \<Rightarrow> rat option" where
  "spec_score file l ts =
     (let ll = toLowerCase l;
          matched = filter (includesStr ll) ts
      in if matched = [] then None
         else Some (10 * count (\<lambda>t. True) matched
                  + 20 * count (\<lambda>t. startsWith ll (t @ '':'')) matched
                  + 5 * count (whole_word ll) matched
                  + count (\<lambda>t. True) matched / count (\<lambda>t. True) ts * 10
                  + (case truthy_title file of
                       None \<Rightarrow> 0
                     | Some tt \<Rightarrow> 15 * count (includesStr (toLowerCase tt)) ts)))"

text \<open>
  The characters with a meaning in a pattern, and the terms free of them.  For such a
  term \<open>t\<close> the constructor returns \<open>literal_word t\<close>: the characters of \<open>t\<close> between two
  word boundaries.
\<close>

definition pattern_chars :: string where
  "pattern_chars = ''|()*+?{.^$['' @ [bslash]"

definition plain :: "string \<Rightarrow> bool" where
  "plain t = (\<forall>c \<in> set t. c \<notin> set pattern_chars)"

definition literal_word :: "string \<Rightarrow> regex" where
  "literal_word t = mk_seq (WordBoundary False # rev (map Chr t) @ [WordBoundary False])"

text \<open>
  The hits that the formula of the specification gives for the lines \<open>ls\<close>, numbered from
  \<open>i\<close>: one for each line that has a score, with the window of \<open>findMatches\<close> and that
  score.
\<close>

definition hit_with_score :: "IndexedFile \<Rightarrow> string list \<Rightarrow> nat \<Rightarrow> rat \<Rightarrow> SearchResult" where
  "hit_with_score f ts j s = (mkHit f ts j 0 0)\<lparr>r_score := s\<rparr>"

definition spec_hits :: "IndexedFile \<Rightarrow> string list \<Rightarrow> nat \<Rightarrow> string list \<Rightarrow> SearchResult list" where
  "spec_hits f ts i ls =
     concat (map (\<lambda>(j, l). case spec_score f l ts of None \<Rightarrow> [] | Some s \<Rightarrow> [hit_with_score f ts j s])
                 (zip [i..<i + length ls] ls))"

text \<open>The bucket of a hit: its file and \<open>floor(lineStart / 10)\<close>.\<close>

definition bucketKey :: "SearchResult \<Rightarrow> string \<times> int" where
  "bucketKey r = (r_relativePath r, r_lineStart r div 10)"

text \<open>Whether a relative path passes the glob filter of \<open>search\<close> (no exception, and a match).\<close>

definition globs_accept :: "string list option \<Rightarrow> string \<Rightarrow> bool" where
  "globs_accept globs rp = (case globs of None \<Rightarrow> True | Some gs \<Rightarrow> matchesGlobs rp gs = Inr True)"

text \<open>
  The file table of an index that ingestion has built: no relative path occurs twice as a
  key, and every file is stored under its own relative path.
\<close>

definition wf_index :: "DocassembleIndex \<Rightarrow> bool" where
  "wf_index idx =
     (distinct (map fst (files idx)) \<and> (\<forall>(rp, f) \<in> set (files idx). relativePath f = rp))"

text \<open>
  The options that \<open>search\<close> works with after the defaults are filled in, and the files
  that it scans: those in scope that pass the glob filter.
\<close>

definition scanned :: "SearchScope \<Rightarrow> string list option \<Rightarrow> string \<times> IndexedFile \<Rightarrow> bool" where
  "scanned sc globs e = (matchesScope (type (snd e)) sc \<and> globs_accept globs (fst e))"

definition scopeOf :: "SearchOptions \<Rightarrow> SearchScope" where
  "scopeOf options = (case scope options of None \<Rightarrow> DocsAndExamples | Some s \<Rightarrow> s)"

definition limitOf :: "SearchOptions \<Rightarrow> int" where
  "limitOf options = (case maxResults options of None \<Rightarrow> 8 | Some m \<Rightarrow> m)"

text \<open>The one invariant of the file table that \<open>initialize\<close> is claimed to keep.\<close>

definition ingested_types :: "DocassembleIndex \<Rightarrow> bool" where
  "ingested_types idx = (\<forall>f \<in> set (getAllFiles idx). type f = Example \<or> type f = Template)"

section \<open>The order of ingestion\<close>

text \<open>
  The order of ingestion: the accepted, readable files below a directory with their texts,
  in the order in which \<open>indexDirectory\<close> reaches them, and the example files of the two
  example roots, the base examples before the demo questions.
\<close>

fun filesOfNode :: "string \<Rightarrow> node \<Rightarrow> (string \<times> string) list"
  and filesOfEntries :: "string \<Rightarrow> (string \<times> node) list \<Rightarrow> (string \<times> string) list" where
  "filesOfNode dirPath (DirNode entries) = filesOfEntries dirPath entries"
| "filesOfNode dirPath (FileNode c) = []"
| "filesOfNode dirPath LockedDir = []"
| "filesOfNode dirPath OtherNode = []"
| "filesOfEntries dirPath [] = []"
| "filesOfEntries dirPath ((name, n) # entries) =
     (case n of
        DirNode sub \<Rightarrow> filesOfNode (path_join dirPath name) n
      | FileNode c \<Rightarrow>
          (case c of
             None \<Rightarrow> []
           | Some text \<Rightarrow> if accepted_name name then [(path_join dirPath name, text)] else [])
      | LockedDir \<Rightarrow> []
      | OtherNode \<Rightarrow> [])
     @ filesOfEntries dirPath entries"

definition filesOfRoot :: "file_system \<Rightarrow> string \<Rightarrow> (string \<times> string) list" where
  "filesOfRoot fs p = (case fs p of None \<Rightarrow> [] | Some n \<Rightarrow> filesOfNode p n)"

definition ingestedExamples :: "file_system \<Rightarrow> string \<Rightarrow> (string \<times> string) list" where
  "ingestedExamples fs base =
     filesOfRoot fs (examplesPath base) @ filesOfRoot fs (demoQuestionsPath base)"

text \<open>The key of the by-name table: \<open>path.basename(filePath, path.extname(filePath))\<close>.\<close>

definition baseName :: "string \<Rightarrow> string" where
  "baseName p = basename p (extname p)"

text \<open>\<open>indexFile\<close> applied to a list of readable files in turn.\<close>

definition ingestAll :: "(string \<Rightarrow> Metadata) \<Rightarrow> file_type \<Rightarrow> DocassembleIndex
    \<Rightarrow> (string \<times> string) list \<Rightarrow> DocassembleIndex" where
  "ingestAll ex t idx fl = foldl (\<lambda>i (p, text). indexFile ex i p (Some text) t) idx fl"

text \<open>The last file of a list of ingested files that has the given base name.\<close>

definition lastByName :: "string \<Rightarrow> (string \<times> string) list \<Rightarrow> (string \<times> string) option" where
  "lastByName name fl =
     (case filter (\<lambda>(p, text). baseName p = name) fl of [] \<Rightarrow> None | x # xs \<Rightarrow> Some (last (x # xs)))"

text \<open>
  A directory that \<open>indexDirectory\<close> can walk to the end: neither it nor a directory below
  it is unreadable.  A root is fine when it is absent or such a directory.
\<close>

fun readable_dir :: "node \<Rightarrow> bool"
  and readable_entries :: "(string \<times> node) list \<Rightarrow> bool" where
  "readable_dir (DirNode entries) = readable_entries entries"
| "readable_dir (FileNode c) = False"
| "readable_dir LockedDir = False"
| "readable_dir OtherNode = False"
| "readable_entries [] = True"
| "readable_entries ((name, n) # entries) =
     ((case n of DirNode sub \<Rightarrow> readable_dir n | LockedDir \<Rightarrow> False
              | FileNode c \<Rightarrow> True | OtherNode \<Rightarrow> True)
      \<and> readable_entries entries)"

definition root_ok :: "file_system \<Rightarrow> string \<Rightarrow> bool" where
  "root_ok fs p = (case fs p of None \<Rightarrow> True | Some n \<Rightarrow> readable_dir n)"

section \<open>A small corpus\<close>

definition no_metadata :: Metadata where
  "no_metadata = \<lparr>title = None, shortTitle = None, documentation = None,
                   exampleStart = None, exampleEnd = None\<rparr>"

definition noMetadata :: "string \<Rightarrow> Metadata" where
  "noMetadata src = no_metadata"

text \<open>
  The indexes of the examples below are built by \<open>initialize\<close>, with the base path \<open>/ref\<close>,
  from file systems whose only root is the examples root.  \<open>text_file\<close> is a readable file
  with the given lines, \<open>example_file name ls\<close> is the entry of the file table for the file
  \<open>name\<close> below the examples root, and \<open>noMetadata\<close> stands in for \<open>extractMetadata\<close>.
\<close>

definition examples_dir :: string where
  "examples_dir = ''docassemble_base/docassemble/base/data/questions/examples''"

definition examples_fs :: "(string \<times> node) list \<Rightarrow> file_system" where
  "examples_fs entries p = (if p = ''/ref/'' @ examples_dir then Some (DirNode entries) else None)"

definition ingested :: "(string \<times> node) list \<Rightarrow> DocassembleIndex" where
  "ingested entries =
     projr (initialize noMetadata (examples_fs entries) (new_DocassembleIndex ''/ref''))"

definition text_file :: "string list \<Rightarrow> node" where
  "text_file ls = FileNode (Some (join [newline] ls))"

definition example_path :: "string \<Rightarrow> string" where
  "example_path name = examples_dir @ ''/'' @ name"

definition example_file :: "string \<Rightarrow> string list \<Rightarrow> IndexedFile" where
  "example_file name ls =
     \<lparr>path = ''/ref/'' @ example_path name, relativePath = example_path name,
      content = join [newline] ls, lines = ls, lineOffsets = offsets 0 ls, type = Example,
      metadata = Some no_metadata\<rparr>"

definition default_options :: SearchOptions where
  "default_options = \<lparr>maxResults = None, scope = None, fileGlobs = None\<rparr>"

definition unlimited :: "SearchScope \<Rightarrow> SearchOptions" where
  "unlimited sc = \<lparr>maxResults = None, scope = Some sc, fileGlobs = None\<rparr>"

definition examples_only :: "int option \<Rightarrow> SearchOptions" where
  "examples_only limit = \<lparr>maxResults = limit, scope = Some Examples, fileGlobs = None\<rparr>"

definition two_lines :: IndexedFile where
  "two_lines = example_file ''a.yml'' [''alpha'', ''beta'']"

definition two_lines_index :: DocassembleIndex where
  "two_lines_index = ingested [(''a.yml'', text_file [''alpha'', ''beta''])]"

definition alpha_hit :: SearchResult where
  "alpha_hit = \<lparr>r_path = ''/ref/'' @ example_path ''a.yml'', r_relativePath = example_path ''a.yml'',
                 r_lineStart = 1, r_lineEnd = 2, r_excerpt = ''alpha'' @ [newline] @ ''beta'',
                 r_score = 25, r_type = Example\<rparr>"

definition alpha_citation :: Citation where
  "alpha_citation = \<lparr>c_path = example_path ''a.yml'', c_lineStart = 1, c_lineEnd = 2,
                      c_excerpt = ''alpha'' @ [newline] @ ''beta'', c_reason = None\<rparr>"

definition cpp_file :: IndexedFile where
  "cpp_file = example_file ''c.md'' [''Use C++ here'']"

definition cpp_index :: DocassembleIndex where
  "cpp_index = ingested [(''c.md'', text_file [''Use C++ here''])]"

definition dotted_file :: IndexedFile where
  "dotted_file = example_file ''d.md'' [''a.cx abc'']"

definition dotted_index :: DocassembleIndex where
  "dotted_index = ingested [(''d.md'', text_file [''a.cx abc''])]"

definition nested_file :: IndexedFile where
  "nested_file = example_file ''sub/deep/intro.yml'' [''question: intro'']"

definition nested_index :: DocassembleIndex where
  "nested_index =
     ingested [(''sub'', DirNode [(''deep'', DirNode [(''intro.yml'', text_file [''question: intro''])])])]"

definition three_hits :: IndexedFile where
  "three_hits =
     example_file ''q.yml''
       [''question: one'', ''x'', ''x'', ''a question'', ''x'', ''x'', ''x'', ''x'', ''x'',
        ''x'', ''x'', ''x'', ''question: two'']"

definition three_hits_index :: DocassembleIndex where
  "three_hits_index =
     ingested [(''q.yml'', text_file
       [''question: one'', ''x'', ''x'', ''a question'', ''x'', ''x'', ''x'', ''x'', ''x'',
        ''x'', ''x'', ''x'', ''question: two''])]"

definition field_file :: IndexedFile where
  "field_file = example_file ''f.yml'' [''---'', ''question: |'', ''  What is your name?'']"

definition prose_file :: IndexedFile where
  "prose_file = example_file ''p.md'' [''This is a question about fields.'']"

definition two_files_index :: DocassembleIndex where
  "two_files_index =
     ingested [(''p.md'', text_file [''This is a question about fields.'']),
               (''f.yml'', text_file [''---'', ''question: |'', ''  What is your name?''])]"

definition two_roots :: file_system where
  "two_roots p =
     (if p = examplesPath ''/ref''
      then Some (DirNode [(''a.yml'', FileNode (Some ''question: base'')),
                          (''sub'', DirNode [(''b.md'', FileNode (Some ''code''))]),
                          (''notes.txt'', FileNode (Some ''skipped''))])
      else if p = demoQuestionsPath ''/ref''
      then Some (DirNode [(''a.yml'', FileNode (Some ''question: demo''))])
      else None)"

section \<open>Facts for evaluation\<close>

text \<open>Facts for evaluating the model on concrete strings.\<close>

lemmas regexp_eval = RegExp_def word_pattern_def bslash_def mk_seq_def mk_alt_def escape_item_def
  quantify_def unmodelled_escape_def class_escape_def control_escape_def is_digit_def digit_chars_def

lemmas string_eval = toLowerCase_def lower_char_def upper_letters_def lower_letters_def
  is_space_def queryTermsOf_def

lemmas match_eval = test_def is_word_boundary_def is_word_char_def canon_def is_line_terminator_def
  in_range_def

lemmas glob_eval = glob_pattern_def

lemmas search_eval = search_def findMatches_def mkHit_def truthy_title_def sortByScore_def
  matchesScope_def slice_def

section \<open>What \<open>initialize\<close> builds\<close>

lemma keywords_compile:
  "\<forall>k \<in> set keywordList. \<exists>r. RegExp (keyword_pattern k) = Inr r"
  by (simp add: keywordList_def keyword_pattern_def regexp_eval is_space_def)

lemma ingestAll_Nil [simp]: "ingestAll ex t idx [] = idx"
  by (simp add: ingestAll_def)

lemma ingestAll_Cons [simp]:
  "ingestAll ex t idx ((p, text) # fl) = ingestAll ex t (indexFile ex idx p (Some text) t) fl"
  by (simp add: ingestAll_def)

lemma ingestAll_append [simp]:
  "ingestAll ex t idx (xs @ ys) = ingestAll ex t (ingestAll ex t idx xs) ys"
  by (simp add: ingestAll_def)

lemma indexFile_None [simp]: "indexFile ex idx p None t = idx"
  by (simp add: indexFile_def)

lemma indexNode_ingestAll:
  "indexNode ex t d n idx = Inr idx' \<Longrightarrow> idx' = ingestAll ex t idx (filesOfNode d n)"
  "indexEntries ex t d es idx = Inr idx' \<Longrightarrow> idx' = ingestAll ex t idx (filesOfEntries d es)"
proof (induction ex t d n idx and ex t d es idx arbitrary: idx' and idx' rule: indexNode_indexEntries.induct)
  case (6 ex t dirPath name n entries idx)
  show ?case
  proof (cases n)
    case (FileNode c)
    with "6.prems" "6.IH" show ?thesis
      by (cases c) (auto split: if_splits)
  next
    case (DirNode sub)
    with "6.prems" "6.IH" show ?thesis
      by (auto split: sum.splits)
  next
    case LockedDir
    with "6.prems" show ?thesis by simp
  next
    case OtherNode
    with "6.prems" "6.IH" show ?thesis by simp
  qed
qed auto

lemma map_of_map_set: "map_of (map_set k v m) k' = (if k' = k then Some v else map_of m k')"
  by (induction m) auto

lemma set_map_set: "set (map_set k v m) \<subseteq> insert (k, v) (set m)"
  by (induction m) (auto split: if_splits)

lemma indexFile_basePath [simp]: "basePath (indexFile ex idx p r t) = basePath idx"
  by (cases r) (simp_all add: indexFile_def Let_def)

lemma ingestAll_basePath [simp]: "basePath (ingestAll ex t idx fl) = basePath idx"
  by (induction fl arbitrary: idx) auto

lemma examplesByName_indexFile_Example:
  "map_of (examplesByName (indexFile ex idx p (Some text) Example)) name =
     (if name = baseName p then Some (indexedFileOf ex (basePath idx) p text Example)
      else map_of (examplesByName idx) name)"
  by (simp add: indexFile_def Let_def map_of_map_set baseName_def)

lemma examplesByName_indexFile_other:
  "t \<noteq> Example \<Longrightarrow> examplesByName (indexFile ex idx p r t) = examplesByName idx"
  by (cases r) (simp_all add: indexFile_def Let_def)

lemma examplesByName_ingestAll_other:
  "t \<noteq> Example \<Longrightarrow> examplesByName (ingestAll ex t idx fl) = examplesByName idx"
  by (induction fl arbitrary: idx) (auto simp: examplesByName_indexFile_other)

lemma lastByName_Nil [simp]: "lastByName name [] = None"
  by (simp add: lastByName_def)

lemma lastByName_Cons:
  "lastByName name (x # fl) =
     (case lastByName name fl of
        Some y \<Rightarrow> Some y
      | None \<Rightarrow> if baseName (fst x) = name then Some x else None)"
  by (cases x) (auto simp: lastByName_def split: list.splits)

lemma lastByName_append:
  "lastByName name (xs @ ys) =
     (case lastByName name ys of Some y \<Rightarrow> Some y | None \<Rightarrow> lastByName name xs)"
  by (induction xs) (auto simp: lastByName_Cons split: option.splits)

lemma examplesByName_ingestAll:
  "map_of (examplesByName (ingestAll ex Example idx fl)) name =
     (case lastByName name fl of
        None \<Rightarrow> map_of (examplesByName idx) name
      | Some (p, text) \<Rightarrow> Some (indexedFileOf ex (basePath idx) p text Example))"
proof (induction fl arbitrary: idx)
  case Nil
  then show ?case by simp
next
  case (Cons x fl)
  obtain p src where x: "x = (p, src)" by (cases x)
  show ?case
    unfolding x
    by (auto simp: Cons.IH lastByName_Cons examplesByName_indexFile_Example split: option.splits)
qed

lemma indexDirectory_ingestAll:
  "indexDirectory ex fs idx p t = Inr idx' \<Longrightarrow> idx' = ingestAll ex t idx (filesOfRoot fs p)"
  by (auto simp: indexDirectory_def filesOfRoot_def split: option.splits dest: indexNode_ingestAll(1))

lemma initialize_ingestAll:
  assumes "initialize ex fs idx = Inr idx'" and "\<not> initialized idx"
  shows "\<exists>ki. idx' =
           (ingestAll ex Template
              (ingestAll ex Example idx (ingestedExamples fs (basePath idx)))
              (filesOfRoot fs (templatesPath (basePath idx))))
           \<lparr>keywordIndex := ki, initialized := True\<rparr>"
proof -
  from assms obtain idx1 idx2 idx3 idx4 where
    1: "indexDirectory ex fs idx (examplesPath (basePath idx)) Example = Inr idx1" and
    2: "indexDirectory ex fs idx1 (demoQuestionsPath (basePath idx)) Example = Inr idx2" and
    3: "indexDirectory ex fs idx2 (templatesPath (basePath idx)) Template = Inr idx3" and
    4: "buildKeywordIndex idx3 = Inr idx4" and
    5: "idx' = idx4\<lparr>initialized := True\<rparr>"
    by (auto simp: initialize_def split: sum.splits)
  from 4 obtain ki where "idx4 = idx3\<lparr>keywordIndex := ki\<rparr>"
    by (auto simp: buildKeywordIndex_def split: sum.splits)
  with 5 indexDirectory_ingestAll [OF 1] indexDirectory_ingestAll [OF 2]
    indexDirectory_ingestAll [OF 3]
  show ?thesis
    by (auto simp: ingestedExamples_def)
qed

text \<open>
  Claim C10.  The by-name table keeps one file per base name, the one ingested last:
  after \<open>initialize\<close> on a new index, \<open>getExampleByName\<close> returns, for a base name, the last
  file with that base name in the order of ingestion of the example files (the base
  examples root first, the demo questions root second), whatever was stored under the
  name before; it returns nothing only when no ingested example file has the name.
\<close>

theorem getExampleByName_last_ingested:
  assumes "initialize ex fs (new_DocassembleIndex base) = Inr idx"
  shows "getExampleByName idx name =
           (case lastByName name (ingestedExamples fs base) of
              None \<Rightarrow> None
            | Some (p, text) \<Rightarrow> Some (indexedFileOf ex base p text Example))"
proof -
  have "\<not> initialized (new_DocassembleIndex base)"
    by (simp add: new_DocassembleIndex_def)
  from initialize_ingestAll [OF assms this] obtain ki where
    "idx = (ingestAll ex Template
              (ingestAll ex Example (new_DocassembleIndex base)
                 (ingestedExamples fs (basePath (new_DocassembleIndex base))))
              (filesOfRoot fs (templatesPath (basePath (new_DocassembleIndex base)))))
           \<lparr>keywordIndex := ki, initialized := True\<rparr>"
    by blast
  then show ?thesis
    by (simp add: getExampleByName_def examplesByName_ingestAll_other examplesByName_ingestAll
        new_DocassembleIndex_def split: option.splits)
qed

lemma ingested_types_indexFile:
  "ingested_types idx \<Longrightarrow> t = Example \<or> t = Template \<Longrightarrow> ingested_types (indexFile ex idx p r t)"
proof (cases r)
  case None
  assume "ingested_types idx"
  with None show ?thesis by simp
next
  case (Some src)
  assume a: "ingested_types idx" and t: "t = Example \<or> t = Template"
  have ty: "type (indexedFileOf ex (basePath idx) p src t) = t"
    by (simp add: indexedFileOf_def Let_def)
  have "set (map_set k v (files idx)) \<subseteq> insert (k, v) (set (files idx))" for k v
    by (rule set_map_set)
  with a t ty show ?thesis
    unfolding Some ingested_types_def getAllFiles_def indexFile_def Let_def
    by (fastforce split: if_splits)
qed

lemma ingested_types_ingestAll:
  "ingested_types idx \<Longrightarrow> t = Example \<or> t = Template \<Longrightarrow> ingested_types (ingestAll ex t idx fl)"
  by (induction fl arbitrary: idx) (auto simp: ingested_types_indexFile)

lemma ingested_types_initialize:
  assumes "initialize ex fs idx = Inr idx'" and "ingested_types idx"
  shows "ingested_types idx'"
proof (cases "initialized idx")
  case True
  with assms show ?thesis by (simp add: initialize_def)
next
  case False
  from initialize_ingestAll [OF assms(1) False] obtain ki where
    "idx' = (ingestAll ex Template
              (ingestAll ex Example idx (ingestedExamples fs (basePath idx)))
              (filesOfRoot fs (templatesPath (basePath idx))))
           \<lparr>keywordIndex := ki, initialized := True\<rparr>"
    by blast
  moreover have "ingested_types (ingestAll ex Template
              (ingestAll ex Example idx (ingestedExamples fs (basePath idx)))
              (filesOfRoot fs (templatesPath (basePath idx))))"
    by (intro ingested_types_ingestAll assms(2)) simp_all
  ultimately show ?thesis
    by (simp add: ingested_types_def getAllFiles_def)
qed

lemma countTypes_no_doc:
  "\<forall>f \<in> set fs. type f \<noteq> Doc \<Longrightarrow> fst (snd (countTypes fs (ex, dc, tp))) = dc"
  by (induction fs arbitrary: ex dc tp) (auto split: file_type.splits)

lemma searchFiles_Docs_empty:
  "\<forall>f \<in> set (map snd fl). type f \<noteq> Doc \<Longrightarrow> searchFiles Docs globs ts fl = Inr []"
  by (induction fl) (auto simp: matchesScope_def)

lemma slice_Nil [simp]: "slice [] a b = []"
  by (simp add: slice_def Let_def)

text \<open>
  Claim C9.  After \<open>initialize\<close> has completed on a new index, every file of the table has
  the classification example or template, \<open>getStats\<close> reports no docs, and every search
  with scope docs returns the empty list, whatever the query and the other options.
\<close>

theorem initialize_no_docs:
  assumes "initialize ex fs (new_DocassembleIndex base) = Inr idx"
  shows "(\<forall>f \<in> set (getAllFiles idx). type f = Example \<or> type f = Template)
       \<and> docs (getStats idx) = 0
       \<and> (\<forall>query options. scope options = Some Docs \<longrightarrow> search idx query options = Inr [])"
proof -
  have "ingested_types (new_DocassembleIndex base)"
    by (simp add: ingested_types_def getAllFiles_def new_DocassembleIndex_def)
  from ingested_types_initialize [OF assms this]
  have ty: "\<forall>f \<in> set (getAllFiles idx). type f = Example \<or> type f = Template"
    by (simp add: ingested_types_def)
  then have nd: "\<forall>f \<in> set (map snd (files idx)). type f \<noteq> Doc"
    by (auto simp: getAllFiles_def)
  obtain ne nd' nt where c: "countTypes (map snd (files idx)) (0, 0, 0) = (ne, nd', nt)"
    by (cases "countTypes (map snd (files idx)) (0, 0, 0)")
  with countTypes_no_doc [OF nd, of 0 0 0] have "nd' = 0"
    by simp
  with c have "docs (getStats idx) = 0"
    by (simp add: getStats_def)
  moreover have "search idx query options = Inr []" if "scope options = Some Docs" for query options
    using that searchFiles_Docs_empty [OF nd]
    by (simp add: search_def sortByScore_def)
  ultimately show ?thesis
    using ty by blast
qed

text \<open>
  \<open>initialize\<close> completes when each of the three roots is absent or can be walked: the
  patterns of the keyword vocabulary all compile.
\<close>

lemma indexNode_completes:
  "readable_dir n \<Longrightarrow> indexNode ex t d n idx = Inr (ingestAll ex t idx (filesOfNode d n))"
  "readable_entries es \<Longrightarrow> indexEntries ex t d es idx = Inr (ingestAll ex t idx (filesOfEntries d es))"
proof (induction ex t d n idx and ex t d es idx rule: indexNode_indexEntries.induct)
  case (6 ex t dirPath name n entries idx)
  show ?case
  proof (cases n)
    case (FileNode c)
    with "6.prems" "6.IH" show ?thesis
      by (cases c) auto
  next
    case (DirNode sub)
    with "6.prems" "6.IH" show ?thesis
      by auto
  next
    case LockedDir
    with "6.prems" show ?thesis by simp
  next
    case OtherNode
    with "6.prems" "6.IH" show ?thesis by simp
  qed
qed auto

lemma indexDirectory_completes:
  "root_ok fs p \<Longrightarrow> indexDirectory ex fs idx p t = Inr (ingestAll ex t idx (filesOfRoot fs p))"
  by (auto simp: root_ok_def indexDirectory_def filesOfRoot_def indexNode_completes(1)
      split: option.splits)

lemma keywordsOfFile_completes: "\<exists>ki'. keywordsOfFile rp f keywordList ki = Inr ki'"
proof -
  have "\<forall>k \<in> set ks. \<exists>r. RegExp (keyword_pattern k) = Inr r \<Longrightarrow>
        \<exists>ki'. keywordsOfFile rp f ks ki = Inr ki'" for ks
    by (induction ks arbitrary: ki) auto
  then show ?thesis
    using keywords_compile by blast
qed

lemma keywordsOfFiles_completes: "\<exists>ki'. keywordsOfFiles fl ki = Inr ki'"
proof (induction fl arbitrary: ki)
  case Nil
  then show ?case by simp
next
  case (Cons a fl)
  obtain rp f where a: "a = (rp, f)" by (cases a)
  obtain ki1 where "keywordsOfFile rp f keywordList ki = Inr ki1"
    using keywordsOfFile_completes by blast
  with Cons.IH [of ki1] show ?case
    unfolding a by auto
qed

lemma buildKeywordIndex_completes: "\<exists>idx'. buildKeywordIndex idx = Inr idx'"
  using keywordsOfFiles_completes [of "files idx" "keywordIndex idx"]
  by (auto simp: buildKeywordIndex_def)

lemma initialize_completes:
  assumes "root_ok fs (examplesPath (basePath idx))"
    and "root_ok fs (demoQuestionsPath (basePath idx))"
    and "root_ok fs (templatesPath (basePath idx))"
  shows "\<exists>idx'. initialize ex fs idx = Inr idx'"
proof -
  let ?i3 = "ingestAll ex Template
      (ingestAll ex Example
         (ingestAll ex Example idx (filesOfRoot fs (examplesPath (basePath idx))))
         (filesOfRoot fs (demoQuestionsPath (basePath idx))))
      (filesOfRoot fs (templatesPath (basePath idx)))"
  obtain idx4 where "buildKeywordIndex ?i3 = Inr idx4"
    using buildKeywordIndex_completes by blast
  then show ?thesis
    by (simp add: initialize_def indexDirectory_completes assms)
qed

lemmas path_eval = examplesPath_def demoQuestionsPath_def templatesPath_def path_join_def

lemma two_roots_ok:
  "root_ok two_roots (examplesPath ''/ref'')"
  "root_ok two_roots (demoQuestionsPath ''/ref'')"
  "root_ok two_roots (templatesPath ''/ref'')"
  by (simp_all add: root_ok_def two_roots_def path_eval)

lemma two_roots_initialize:
  "\<exists>idx. initialize noMetadata two_roots (new_DocassembleIndex ''/ref'') = Inr idx"
  by (rule initialize_completes) (simp_all add: new_DocassembleIndex_def two_roots_ok)

theorem initialize_no_docs_witness:
  "docs (getStats (projr (initialize noMetadata two_roots (new_DocassembleIndex ''/ref'')))) = 0
   \<and> search (projr (initialize noMetadata two_roots (new_DocassembleIndex ''/ref'')))
        ''question'' (unlimited Docs) = Inr []"
proof -
  obtain idx where i: "initialize noMetadata two_roots (new_DocassembleIndex ''/ref'') = Inr idx"
    using two_roots_initialize by blast
  have "scope (unlimited Docs) = Some Docs"
    by (simp add: unlimited_def)
  with initialize_no_docs [OF i] show ?thesis
    by (simp add: i)
qed

theorem getExampleByName_last_ingested_witness:
  "getExampleByName (projr (initialize noMetadata two_roots (new_DocassembleIndex ''/ref''))) ''a'' =
     Some (indexedFileOf noMetadata ''/ref''
             ''/ref/docassemble_demo/docassemble/demo/data/questions/a.yml'' ''question: demo'' Example)"
proof -
  obtain idx where i: "initialize noMetadata two_roots (new_DocassembleIndex ''/ref'') = Inr idx"
    using two_roots_initialize by blast
  have "ingestedExamples two_roots ''/ref'' =
          [(''/ref/docassemble_base/docassemble/base/data/questions/examples/a.yml'', ''question: base''),
           (''/ref/docassemble_base/docassemble/base/data/questions/examples/sub/b.md'', ''code''),
           (''/ref/docassemble_demo/docassemble/demo/data/questions/a.yml'', ''question: demo'')]"
    by (simp add: ingestedExamples_def filesOfRoot_def two_roots_def path_eval accepted_name_def
        endsWith_def)
  then have "lastByName ''a'' (ingestedExamples two_roots ''/ref'') =
          Some (''/ref/docassemble_demo/docassemble/demo/data/questions/a.yml'', ''question: demo'')"
    by (simp add: lastByName_def baseName_def basename_def extname_def last_component_def
        endsWith_def Let_def)
  with getExampleByName_last_ingested [OF i, of "''a''"] show ?thesis
    by (simp add: i)
qed

text \<open>
  The file table that \<open>initialize\<close> builds is well formed: \<open>indexFile\<close> stores every file
  under its own relative path, and \<open>set\<close> keeps the keys of the table distinct.
\<close>

lemma map_fst_map_set:
  "map fst (map_set k v m) = (if k \<in> fst ` set m then map fst m else map fst m @ [k])"
  by (induction m) force+

lemma wf_index_indexFile: "wf_index idx \<Longrightarrow> wf_index (indexFile ex idx p r t)"
proof (cases r)
  case None
  assume "wf_index idx"
  with None show ?thesis by simp
next
  case (Some src)
  assume a: "wf_index idx"
  let ?f = "indexedFileOf ex (basePath idx) p src t"
  have "distinct (map fst (map_set (relativePath ?f) ?f (files idx)))"
    using a by (simp add: wf_index_def map_fst_map_set)
  moreover have "\<forall>(rp, f) \<in> set (map_set (relativePath ?f) ?f (files idx)). relativePath f = rp"
    using a set_map_set [of "relativePath ?f" ?f "files idx"] by (auto simp: wf_index_def)
  ultimately show ?thesis
    unfolding Some by (auto simp: wf_index_def indexFile_def Let_def)
qed

lemma wf_index_ingestAll: "wf_index idx \<Longrightarrow> wf_index (ingestAll ex t idx fl)"
  by (induction fl arbitrary: idx) (auto simp: wf_index_indexFile)

lemma wf_index_initialize:
  assumes "initialize ex fs idx = Inr idx'" and "wf_index idx"
  shows "wf_index idx'"
proof (cases "initialized idx")
  case True
  with assms show ?thesis by (simp add: initialize_def)
next
  case False
  from initialize_ingestAll [OF assms(1) False] obtain ki where
    "idx' = (ingestAll ex Template
              (ingestAll ex Example idx (ingestedExamples fs (basePath idx)))
              (filesOfRoot fs (templatesPath (basePath idx))))
           \<lparr>keywordIndex := ki, initialized := True\<rparr>"
    by blast
  moreover have "wf_index (ingestAll ex Template
              (ingestAll ex Example idx (ingestedExamples fs (basePath idx)))
              (filesOfRoot fs (templatesPath (basePath idx))))"
    by (intro wf_index_ingestAll assms(2))
  ultimately show ?thesis
    by (simp add: wf_index_def)
qed

lemma wf_index_new: "wf_index (new_DocassembleIndex base)"
  by (simp add: wf_index_def new_DocassembleIndex_def)

section \<open>The file tables of the corpus\<close>

text \<open>
  \<open>initialize\<close> completes on these file systems, and the file table that it builds is the
  one that \<open>indexFile\<close> builds from the files of the examples root.
\<close>

lemma initialize_ingested:
  assumes "readable_entries entries"
  shows "initialize noMetadata (examples_fs entries) (new_DocassembleIndex ''/ref'') = Inr (ingested entries)"
    and "files (ingested entries) =
           files (ingestAll noMetadata Example (new_DocassembleIndex ''/ref'')
                    (filesOfEntries (''/ref/'' @ examples_dir) entries))"
proof -
  let ?fs = "examples_fs entries" and ?new = "new_DocassembleIndex ''/ref''"
  have b: "basePath ?new = ''/ref''" and ni: "\<not> initialized ?new"
    by (simp_all add: new_DocassembleIndex_def)
  have e: "examplesPath ''/ref'' = ''/ref/'' @ examples_dir"
    by (simp add: path_eval examples_dir_def)
  have r1: "root_ok ?fs (examplesPath ''/ref'')"
    using assms by (simp add: root_ok_def examples_fs_def e)
  have r2: "root_ok ?fs (demoQuestionsPath ''/ref'')" and r3: "root_ok ?fs (templatesPath ''/ref'')"
    by (simp_all add: root_ok_def examples_fs_def path_eval examples_dir_def)
  obtain idx where idx: "initialize noMetadata ?fs ?new = Inr idx"
    using initialize_completes [of ?fs ?new noMetadata] r1 r2 r3 b by auto
  then show i: "initialize noMetadata ?fs ?new = Inr (ingested entries)"
    by (simp add: ingested_def)
  have d: "filesOfRoot ?fs (demoQuestionsPath ''/ref'') = []"
    and t: "filesOfRoot ?fs (templatesPath ''/ref'') = []"
    by (simp_all add: filesOfRoot_def examples_fs_def path_eval examples_dir_def)
  have x: "filesOfRoot ?fs (examplesPath ''/ref'') = filesOfEntries (''/ref/'' @ examples_dir) entries"
    by (simp add: filesOfRoot_def examples_fs_def e)
  from initialize_ingestAll [OF i ni] show "files (ingested entries) =
           files (ingestAll noMetadata Example ?new (filesOfEntries (''/ref/'' @ examples_dir) entries))"
    unfolding b by (auto simp: ingestedExamples_def d t x)
qed

lemma wf_index_ingested: "readable_entries entries \<Longrightarrow> wf_index (ingested entries)"
  using wf_index_initialize [OF initialize_ingested(1) wf_index_new] .

lemmas ingest_eval = examples_dir_def text_file_def example_file_def example_path_def
  path_join_def accepted_name_def endsWith_def indexFile_def indexedFileOf_def path_relative_def
  new_DocassembleIndex_def noMetadata_def newline_def Let_def

lemmas corpus_eval = example_file_def example_path_def examples_dir_def no_metadata_def newline_def

lemma two_lines_files: "files two_lines_index = [(example_path ''a.yml'', two_lines)]"
  unfolding two_lines_index_def two_lines_def
  by (subst initialize_ingested(2)) (simp_all add: ingest_eval)

lemma cpp_files: "files cpp_index = [(example_path ''c.md'', cpp_file)]"
  unfolding cpp_index_def cpp_file_def
  by (subst initialize_ingested(2)) (simp_all add: ingest_eval)

lemma dotted_files: "files dotted_index = [(example_path ''d.md'', dotted_file)]"
  unfolding dotted_index_def dotted_file_def
  by (subst initialize_ingested(2)) (simp_all add: ingest_eval)

lemma nested_files: "files nested_index = [(example_path ''sub/deep/intro.yml'', nested_file)]"
  unfolding nested_index_def nested_file_def
  by (subst initialize_ingested(2)) (simp_all add: ingest_eval)

lemma three_hits_files: "files three_hits_index = [(example_path ''q.yml'', three_hits)]"
  unfolding three_hits_index_def three_hits_def
  by (subst initialize_ingested(2)) (simp_all add: ingest_eval)

lemma two_files_files:
  "files two_files_index = [(example_path ''p.md'', prose_file), (example_path ''f.yml'', field_file)]"
  unfolding two_files_index_def prose_file_def field_file_def
  by (subst initialize_ingested(2)) (simp_all add: ingest_eval)

section \<open>Citations\<close>

lemma slice_nonneg:
  "0 \<le> a \<Longrightarrow> 0 \<le> b \<Longrightarrow> slice xs a b = drop (nat a) (take (nat b) xs)"
  by (auto simp: slice_def Let_def drop_take min_def nat_diff_distrib')

lemma upto_nth_lines:
  assumes "1 \<le> a" and "b \<le> int (length xs)"
  shows "map (\<lambda>i. xs ! nat (i - 1)) [a..b] = drop (nat (a - 1)) (take (nat b) xs)"
proof (rule nth_equalityI)
  show "length (map (\<lambda>i. xs ! nat (i - 1)) [a..b]) = length (drop (nat (a - 1)) (take (nat b) xs))"
    using assms by auto
next
  fix i
  assume "i < length (map (\<lambda>i. xs ! nat (i - 1)) [a..b])"
  then have i: "int i < b - a + 1"
    by auto
  then have "[a..b] ! i = a + int i"
    by simp
  moreover have "nat (a + int i - 1) = nat (a - 1) + i"
    using assms by auto
  ultimately show "map (\<lambda>i. xs ! nat (i - 1)) [a..b] ! i = drop (nat (a - 1)) (take (nat b) xs) ! i"
    using i assms by auto
qed

lemma snippet_is_clamped:
  assumes "0 \<le> lineEnd"
  shows "slice (lines file) (max 0 (lineStart - 1)) (min (int (length (lines file))) lineEnd)
         = clamped_lines file lineStart lineEnd"
proof -
  have "max 0 (lineStart - 1) = max 1 lineStart - 1"
    by auto
  then show ?thesis
    using assms
    by (simp add: slice_nonneg clamped_lines_def lines_between_def upto_nth_lines)
qed

lemma empty_range_slice:
  assumes "lineEnd < lineStart" and "0 \<le> lineEnd"
  shows "slice xs (max 0 (lineStart - 1)) (min (int (length xs)) lineEnd) = []"
  using assms by (auto simp: slice_def Let_def min_def max_def)

text \<open>
  Claim C4, as amended.  For an ingested relative path and a requested range with
  \<open>lineEnd \<ge> 0\<close>, \<open>createCitation\<close> clamps the range to the bounds of the file.  When the
  text of the clamped lines, joined by newlines, is not empty, it returns a citation with
  exactly that text as its excerpt, the reason argument unchanged, and the requested
  \<open>lineStart\<close> and \<open>lineEnd\<close>; when the clamped range has no line, it returns the failure
  indicator.
\<close>

theorem createCitation_clamped:
  assumes "map_of (files idx) rp = Some file" and "0 \<le> lineEnd"
  shows "(join [newline] (clamped_lines file lineStart lineEnd) \<noteq> [] \<longrightarrow>
           createCitation idx rp lineStart lineEnd reason =
             Some \<lparr>c_path = rp, c_lineStart = lineStart, c_lineEnd = lineEnd,
                   c_excerpt = join [newline] (clamped_lines file lineStart lineEnd),
                   c_reason = reason\<rparr>)
       \<and> (clamped_lines file lineStart lineEnd = [] \<longrightarrow>
           createCitation idx rp lineStart lineEnd reason = None)"
  using assms snippet_is_clamped [OF assms(2), of "file" lineStart]
  by (simp add: createCitation_def getSnippet_def)

theorem createCitation_clamped_witness:
  "createCitation two_lines_index (example_path ''a.yml'') 0 7 (Some ''why'') =
     Some \<lparr>c_path = example_path ''a.yml'', c_lineStart = 0, c_lineEnd = 7,
           c_excerpt = ''alpha'' @ [newline] @ ''beta'', c_reason = Some ''why''\<rparr>
   \<and> createCitation two_lines_index (example_path ''a.yml'') 3 9 (Some ''why'') = None"
proof -
  have f: "map_of (files two_lines_index) (example_path ''a.yml'') = Some two_lines"
    by (simp add: two_lines_files)
  have c1: "clamped_lines two_lines 0 7 = [''alpha'', ''beta'']"
    by (simp add: clamped_lines_def lines_between_def two_lines_def example_file_def upto_rec1)
  have c2: "clamped_lines two_lines 3 9 = []"
    by (simp add: clamped_lines_def lines_between_def two_lines_def example_file_def)
  show ?thesis
    using createCitation_clamped [OF f, of 7 0 "Some ''why''"]
          createCitation_clamped [OF f, of 9 3 "Some ''why''"]
    by (simp add: c1 c2 newline_def)
qed

text \<open>
  Claim C4 as stated fails: the path is ingested, and the request for lines 5 to 3 is
  answered with the failure indicator, not with a citation.
\<close>

theorem createCitation_every_range_counterexample:
  "map_of (files two_lines_index) (example_path ''a.yml'') = Some two_lines
   \<and> createCitation two_lines_index (example_path ''a.yml'') 5 3 None = None"
  by (simp add: two_lines_files two_lines_def example_file_def createCitation_def getSnippet_def
      slice_def)

text \<open>
  \<open>createCitation\<close> returns the failure indicator when the path is not an ingested
  relative path, and when \<open>lineStart\<close> is greater than \<open>lineEnd\<close> and \<open>lineEnd\<close> is not
  negative.  No step of it can throw: its model has no error result.
\<close>

lemma createCitation_failure:
  assumes "map_of (files idx) rp = None \<or> (lineEnd < lineStart \<and> 0 \<le> lineEnd)"
  shows "createCitation idx rp lineStart lineEnd reason = None"
proof (cases "map_of (files idx) rp")
  case None
  then show ?thesis by (simp add: createCitation_def)
next
  case (Some f)
  with assms have "lineEnd < lineStart" and "0 \<le> lineEnd"
    by auto
  then have "slice (lines f) (max 0 (lineStart - 1)) (min (int (length (lines f))) lineEnd) = []"
    by (rule empty_range_slice)
  then show ?thesis
    using Some by (simp add: createCitation_def getSnippet_def)
qed

lemma createCitation_failure_example:
  "createCitation two_lines_index (example_path ''a.yml'') 2 1 None = None
   \<and> createCitation two_lines_index ''nonexistent/file.yml'' 1 2 None = None"
proof -
  have "map_of (files two_lines_index) (example_path ''a.yml'') = None \<or> ((1::int) < 2 \<and> (0::int) \<le> 1)"
    by simp
  moreover have "map_of (files two_lines_index) ''nonexistent/file.yml'' = None
      \<or> ((2::int) < 1 \<and> (0::int) \<le> 2)"
    by (simp add: two_lines_files example_path_def examples_dir_def)
  ultimately show ?thesis
    using createCitation_failure [of two_lines_index "example_path ''a.yml''" 1 2 None]
          createCitation_failure [of two_lines_index "''nonexistent/file.yml''" 2 1 None]
    by simp
qed

lemma createCitation_far_negative_end:
  "createCitation two_lines_index (example_path ''a.yml'') 1 (- 5) None = None"
  by (simp add: two_lines_files two_lines_def example_file_def createCitation_def getSnippet_def
      slice_def)

text \<open>
  Claim C6: a call of \<open>createCitation\<close> with \<open>lineStart\<close> greater than \<open>lineEnd\<close> returns
  the failure indicator.  The code fails this at a negative \<open>lineEnd\<close>: \<open>getSnippet\<close>
  clamps the start from below with \<open>Math.max(0, lineStart - 1)\<close> but the end only from above
  with \<open>Math.min(length, lineEnd)\<close>, and \<open>slice\<close> counts a negative end from the end of the
  array.  On the ingested file of two lines the request for lines 1 to -1 has \<open>lineStart\<close>
  greater than \<open>lineEnd\<close> and is answered with a citation of line 1.
\<close>

theorem createCitation_negative_end_failing_input:
  "map_of (files two_lines_index) (example_path ''a.yml'') = Some two_lines
   \<and> (- 1 :: int) < 1
   \<and> createCitation two_lines_index (example_path ''a.yml'') 1 (- 1) None =
       Some \<lparr>c_path = example_path ''a.yml'', c_lineStart = 1, c_lineEnd = - 1,
             c_excerpt = ''alpha'', c_reason = None\<rparr>"
  by (simp add: two_lines_files two_lines_def example_file_def createCitation_def getSnippet_def
      slice_def)

section \<open>Exceptions of the query engine\<close>

lemma error_cases: "e \<noteq> Unmodelled \<Longrightarrow> e = SyntaxError"
  by (cases e) auto

lemma scoreTerms_error_source:
  "scoreTerms l ts acc = Inl e \<Longrightarrow> \<exists>t \<in> set ts. RegExp (word_pattern t) = Inl e"
proof (induction ts arbitrary: acc)
  case Nil
  then show ?case by simp
next
  case (Cons t ts)
  obtain s m where acc: "acc = (s, m)" by (cases acc)
  show ?case
    using Cons.prems Cons.IH unfolding acc
    by (auto split: if_splits sum.splits)
qed

lemma scoreTerms_throws:
  "t \<in> set ts \<Longrightarrow> includesStr l t \<Longrightarrow> RegExp (word_pattern t) = Inl e0 \<Longrightarrow>
   \<exists>e. scoreTerms l ts acc = Inl e"
proof (induction ts arbitrary: acc)
  case Nil
  then show ?case by simp
next
  case (Cons u ts)
  obtain s m where acc: "acc = (s, m)" by (cases acc)
  show ?case
  proof (cases "u = t")
    case True
    with Cons.prems show ?thesis unfolding acc by simp
  next
    case False
    with Cons.prems have "t \<in> set ts" by simp
    from Cons.IH [OF this Cons.prems(2,3)] show ?thesis
      unfolding acc by (auto split: sum.splits)
  qed
qed

lemma lineHits_error_source:
  "lineHits f ts i ls = Inl e \<Longrightarrow> \<exists>t \<in> set ts. RegExp (word_pattern t) = Inl e"
proof (induction ls arbitrary: i)
  case Nil
  then show ?case by simp
next
  case (Cons l ls)
  then show ?case
    by (auto split: sum.splits prod.splits dest: scoreTerms_error_source)
qed

lemma lineHits_throws:
  "l \<in> set ls \<Longrightarrow> t \<in> set ts \<Longrightarrow> includesStr (toLowerCase l) t \<Longrightarrow>
   RegExp (word_pattern t) = Inl e0 \<Longrightarrow> \<exists>e. lineHits f ts i ls = Inl e"
proof (induction ls arbitrary: i)
  case Nil
  then show ?case by simp
next
  case (Cons k ls)
  show ?case
  proof (cases "k = l")
    case True
    with Cons.prems scoreTerms_throws [of t ts "toLowerCase l" e0 "(0, 0)"]
    show ?thesis by auto
  next
    case False
    with Cons.prems have "l \<in> set ls" by simp
    from Cons.IH [OF this Cons.prems(2,3,4), of "i + 1"] show ?thesis
      by (auto split: sum.splits prod.splits)
  qed
qed

lemma findMatches_error_source:
  "findMatches f ts = Inl e \<Longrightarrow> \<exists>t \<in> set ts. RegExp (word_pattern t) = Inl e"
  by (auto simp: findMatches_def split: sum.splits dest: lineHits_error_source)

lemma findMatches_throws:
  "l \<in> set (lines f) \<Longrightarrow> t \<in> set ts \<Longrightarrow> includesStr (toLowerCase l) t \<Longrightarrow>
   RegExp (word_pattern t) = Inl e0 \<Longrightarrow> \<exists>e. findMatches f ts = Inl e"
  using lineHits_throws [of l "lines f" t ts e0 f 0]
  by (auto simp: findMatches_def split: sum.splits)

lemma matchesGlobs_error_source:
  "matchesGlobs rp gs = Inl e \<Longrightarrow> \<exists>g \<in> set gs. RegExp (glob_pattern g) = Inl e"
  by (induction gs) (auto split: sum.splits if_splits)

lemma searchFiles_error_source:
  "searchFiles sc globs ts fl = Inl e \<Longrightarrow>
   (\<exists>t \<in> set ts. RegExp (word_pattern t) = Inl e) \<or>
   (\<exists>gs. globs = Some gs \<and> (\<exists>g \<in> set gs. RegExp (glob_pattern g) = Inl e))"
proof (induction fl)
  case Nil
  then show ?case by simp
next
  case (Cons a fl)
  obtain rp f where a: "a = (rp, f)" by (cases a)
  show ?case
    using Cons.prems Cons.IH unfolding a
    by (auto split: if_splits sum.splits option.splits
        dest: findMatches_error_source matchesGlobs_error_source)
qed

lemma searchFiles_throws:
  "(rp, f) \<in> set fl \<Longrightarrow> matchesScope (type f) sc \<Longrightarrow> globs_accept globs rp \<Longrightarrow>
   findMatches f ts = Inl e0 \<Longrightarrow> \<exists>e. searchFiles sc globs ts fl = Inl e"
proof (induction fl)
  case Nil
  then show ?case by simp
next
  case (Cons a fl)
  obtain rp' f' where a: "a = (rp', f')" by (cases a)
  show ?case
  proof (cases "a = (rp, f)")
    case True
    with Cons.prems show ?thesis
      by (auto simp: globs_accept_def split: option.splits)
  next
    case False
    with Cons.prems have "(rp, f) \<in> set fl" by simp
    from Cons.IH [OF this Cons.prems(2,3,4)] show ?thesis
      unfolding a by (auto split: sum.splits option.splits)
  qed
qed

text \<open>
  Claim C8.  \<open>search\<close> is not total: when a query term \<open>t\<close> for which
  \<open>new RegExp("\\b" + t + "\\b")\<close> throws a \<open>SyntaxError\<close> occurs in the lower-cased text of a
  line of a file that is scanned (in scope, and passing the glob filter), \<open>search\<close> throws
  that exception instead of returning a list.  The patterns of the query and of the globs
  are assumed to be within the modelled part of the pattern language.
\<close>

theorem search_throws:
  assumes "t \<in> set (queryTermsOf query)"
    and "RegExp (word_pattern t) = Inl SyntaxError"
    and "(rp, f) \<in> set (files idx)"
    and "matchesScope (type f) (case scope options of None \<Rightarrow> DocsAndExamples | Some s \<Rightarrow> s)"
    and "globs_accept (fileGlobs options) rp"
    and "l \<in> set (lines f)"
    and "includesStr (toLowerCase l) t"
    and "\<forall>u \<in> set (queryTermsOf query). RegExp (word_pattern u) \<noteq> Inl Unmodelled"
    and "\<forall>gs. fileGlobs options = Some gs \<longrightarrow> (\<forall>g \<in> set gs. RegExp (glob_pattern g) \<noteq> Inl Unmodelled)"
  shows "search idx query options = Inl SyntaxError"
proof -
  let ?sc = "case scope options of None \<Rightarrow> DocsAndExamples | Some s \<Rightarrow> s"
  let ?ts = "queryTermsOf query"
  obtain e0 where "findMatches f ?ts = Inl e0"
    using findMatches_throws [OF assms(6) assms(1) assms(7) assms(2)] by blast
  then obtain e where e: "searchFiles ?sc (fileGlobs options) ?ts (files idx) = Inl e"
    using searchFiles_throws [OF assms(3) assms(4) assms(5)] by blast
  from searchFiles_error_source [OF e] assms(8) assms(9) have "e \<noteq> Unmodelled"
    by auto
  then have "e = SyntaxError"
    by (rule error_cases)
  with e show ?thesis
    by (simp add: search_def)
qed

theorem search_throws_witness:
  "search cpp_index ''c++'' default_options = Inl SyntaxError"
proof -
  have 1: "''c++'' \<in> set (queryTermsOf ''c++'')"
    by (simp add: string_eval)
  have 2: "RegExp (word_pattern ''c++'') = Inl SyntaxError"
    by (simp add: regexp_eval)
  have 3: "(example_path ''c.md'', cpp_file) \<in> set (files cpp_index)"
    by (simp add: cpp_files)
  have 4: "matchesScope (type cpp_file) (case scope default_options of None \<Rightarrow> DocsAndExamples | Some s \<Rightarrow> s)"
    by (simp add: default_options_def cpp_file_def example_file_def matchesScope_def)
  have 5: "globs_accept (fileGlobs default_options) (example_path ''c.md'')"
    by (simp add: globs_accept_def default_options_def)
  have 6: "''Use C++ here'' \<in> set (lines cpp_file)"
    by (simp add: cpp_file_def example_file_def)
  have 7: "includesStr (toLowerCase ''Use C++ here'') ''c++''"
    by (simp add: string_eval)
  have 8: "\<forall>u \<in> set (queryTermsOf ''c++''). RegExp (word_pattern u) \<noteq> Inl Unmodelled"
    by (simp add: string_eval regexp_eval)
  have 9: "\<forall>gs. fileGlobs default_options = Some gs \<longrightarrow> (\<forall>g \<in> set gs. RegExp (glob_pattern g) \<noteq> Inl Unmodelled)"
    by (simp add: default_options_def)
  show ?thesis
    using search_throws [OF 1 2 3 4 5 6 7 8 9] .
qed

section \<open>Glob filter and scores at inputs with pattern characters\<close>

text \<open>
  Claim C3, at a failing input.  The glob \<open>docassemble_base/**/intro.yml\<close> matches the
  relative path of the ingested file \<open>sub/deep/intro.yml\<close> in the sense of the
  specification, since \<open>**\<close> spans separators.  \<open>matchesGlobs\<close> rejects the path: the second
  replacement rewrites the \<open>*\<close> of the \<open>.*\<close> that the first one has just produced, so that the
  pattern is \<open>docassemble_base/.[^/]*/intro.yml\<close>, and the file, which the search without
  globs finds, is filtered out.
\<close>

theorem glob_double_star_failing_input:
  "glob_matches ''docassemble_base/**/intro.yml'' (example_path ''sub/deep/intro.yml'')
   \<and> glob_pattern ''docassemble_base/**/intro.yml'' = ''docassemble_base/.[^/]*/intro.yml''
   \<and> matchesGlobs (example_path ''sub/deep/intro.yml'') [''docassemble_base/**/intro.yml''] = Inr False
   \<and> search nested_index ''question''
         \<lparr>maxResults = None, scope = None, fileGlobs = Some [''docassemble_base/**/intro.yml'']\<rparr> = Inr []
   \<and> map r_relativePath (projr (search nested_index ''question'' default_options)) =
         [example_path ''sub/deep/intro.yml'']"
proof -
  have p: "glob_pattern ''docassemble_base/**/intro.yml'' = ''docassemble_base/.[^/]*/intro.yml''"
    by (simp add: glob_eval)
  have g: "matchesGlobs (example_path ''sub/deep/intro.yml'') [''docassemble_base/**/intro.yml''] = Inr False"
    by (simp add: p regexp_eval match_eval example_path_def examples_dir_def)
  have "glob_matches ''docassemble_base/**/intro.yml'' (example_path ''sub/deep/intro.yml'')"
    by (simp add: example_path_def examples_dir_def)
  moreover have "search nested_index ''question''
      \<lparr>maxResults = None, scope = None, fileGlobs = Some [''docassemble_base/**/intro.yml'']\<rparr> = Inr []"
    by (simp add: search_def nested_files g nested_file_def example_file_def matchesScope_def
        sortByScore_def del: matchesGlobs.simps)
  moreover have "map r_relativePath (projr (search nested_index ''question'' default_options)) =
         [example_path ''sub/deep/intro.yml'']"
    by (simp add: search_eval nested_files nested_file_def corpus_eval default_options_def
        string_eval regexp_eval match_eval)
  ultimately show ?thesis
    using p g by simp
qed

text \<open>
  Claim C1, at two failing inputs.  The term \<open>c++\<close> occurs in the line \<open>Use C++ here\<close>, for
  which the formula of the claim gives the score 20; \<open>search\<close> throws instead, since the
  term is spliced into the pattern unescaped.  The term \<open>a.c\<close> occurs in the line
  \<open>a.cx abc\<close> but not at a word boundary, so that the formula gives 20; \<open>search\<close> gives
  25, since the pattern \<open>\ba.c\b\<close> matches \<open>abc\<close>.
\<close>

theorem score_formula_failing_input:
  "distinct (queryTermsOf ''c++'')
   \<and> spec_score cpp_file ''Use C++ here'' (queryTermsOf ''c++'') = Some 20
   \<and> search cpp_index ''c++'' default_options = Inl SyntaxError
   \<and> distinct (queryTermsOf ''a.c'')
   \<and> spec_score dotted_file ''a.cx abc'' (queryTermsOf ''a.c'') = Some 20
   \<and> map r_score (projr (search dotted_index ''a.c'' default_options)) = [25]"
proof -
  have q1: "queryTermsOf ''c++'' = [''c++'']" and q2: "queryTermsOf ''a.c'' = [''a.c'']"
    by (simp_all add: string_eval)
  have s1: "spec_score cpp_file ''Use C++ here'' [''c++''] = Some 20"
    by (simp add: spec_score_def count_def string_eval whole_word_def whole_word_at_def last_of_def
        match_eval cpp_file_def example_file_def truthy_title_def no_metadata_def digit_chars_def
        Let_def)
  have s2: "spec_score dotted_file ''a.cx abc'' [''a.c''] = Some 20"
    by (simp add: spec_score_def count_def string_eval whole_word_def whole_word_at_def last_of_def
        match_eval dotted_file_def example_file_def truthy_title_def no_metadata_def digit_chars_def
        Let_def)
  have r1: "RegExp (word_pattern ''c++'') = Inl SyntaxError"
    by (simp add: regexp_eval)
  have c1: "search cpp_index ''c++'' default_options = Inl SyntaxError"
    by (simp add: search_eval q1 r1 cpp_files cpp_file_def example_file_def default_options_def
        string_eval)
  have c2: "map r_score (projr (search dotted_index ''a.c'' default_options)) = [25]"
    by (simp add: search_eval q2 dotted_files dotted_file_def corpus_eval default_options_def
        string_eval regexp_eval match_eval)
  show ?thesis
    using s1 s2 c1 c2 by (simp add: q1 q2)
qed

section \<open>Deduplication and ranking\<close>

text \<open>
  For the hits of one file the key string of \<open>findMatches\<close> and the bucket determine each
  other, since the decimal form of an integer determines it.
\<close>

lemma digit_chars_inj: "m < 10 \<Longrightarrow> n < 10 \<Longrightarrow> digit_chars ! m = digit_chars ! n \<Longrightarrow> m = n"
proof -
  have d: "distinct digit_chars" and l: "length digit_chars = 10"
    by (simp_all add: digit_chars_def)
  show "m < 10 \<Longrightarrow> n < 10 \<Longrightarrow> digit_chars ! m = digit_chars ! n \<Longrightarrow> m = n"
    using d l by (simp add: nth_eq_iff_index_eq)
qed

lemma show_nat_nonempty: "show_nat n \<noteq> []"
  by (subst show_nat.simps) simp

lemma show_nat_inj: "show_nat m = show_nat n \<Longrightarrow> m = n"
proof (induction m arbitrary: n rule: show_nat.induct)
  case (1 m)
  show ?case
  proof (cases "m < 10")
    case True
    then have sm: "show_nat m = [digit_chars ! m]"
      by (subst show_nat.simps) simp
    show ?thesis
    proof (cases "n < 10")
      case n: True
      then have "show_nat n = [digit_chars ! n]"
        by (subst show_nat.simps) simp
      with sm "1.prems" True n show ?thesis
        by (simp add: digit_chars_inj)
    next
      case False
      then have "show_nat n = show_nat (n div 10) @ [digit_chars ! (n mod 10)]"
        by (subst show_nat.simps) simp
      with sm "1.prems" show_nat_nonempty [of "n div 10"] show ?thesis
        by simp
    qed
  next
    case False
    then have sm: "show_nat m = show_nat (m div 10) @ [digit_chars ! (m mod 10)]"
      by (subst show_nat.simps) simp
    show ?thesis
    proof (cases "n < 10")
      case True
      then have "show_nat n = [digit_chars ! n]"
        by (subst show_nat.simps) simp
      with sm "1.prems" show_nat_nonempty [of "m div 10"] show ?thesis
        by (metis butlast.simps(2) butlast_snoc)
    next
      case n: False
      then have sn: "show_nat n = show_nat (n div 10) @ [digit_chars ! (n mod 10)]"
        by (subst show_nat.simps) simp
      from sm sn "1.prems" have a: "show_nat (m div 10) = show_nat (n div 10)"
        and b: "digit_chars ! (m mod 10) = digit_chars ! (n mod 10)"
        by simp_all
      from "1.IH" [OF False a] have "m div 10 = n div 10" .
      moreover from b have "m mod 10 = n mod 10"
        by (simp add: digit_chars_inj)
      ultimately show ?thesis
        by (metis div_mult_mod_eq)
    qed
  qed
qed

lemma show_nat_no_minus: "CHR ''-'' \<notin> set (show_nat n)"
proof (induction n rule: show_nat.induct)
  case (1 n)
  have d: "k < 10 \<Longrightarrow> CHR ''-'' \<noteq> digit_chars ! k" for k
  proof -
    assume "k < 10"
    then have "k < length digit_chars"
      by (simp add: digit_chars_def)
    then have "digit_chars ! k \<in> set digit_chars"
      by (rule nth_mem)
    then show ?thesis
      by (auto simp: digit_chars_def)
  qed
  show ?case
  proof (cases "n < 10")
    case True
    then show ?thesis
      by (subst show_nat.simps) (simp add: d)
  next
    case False
    with "1.IH" show ?thesis
      by (subst show_nat.simps) (simp add: d)
  qed
qed

lemma show_int_inj: "show_int i = show_int j \<Longrightarrow> i = j"
proof -
  assume a: "show_int i = show_int j"
  have neg: "hd (show_int k) = CHR ''-'' \<longleftrightarrow> k < 0" for k
    using show_nat_no_minus [of "nat k"] show_nat_nonempty [of "nat k"]
    by (cases "show_nat (nat k)") (auto simp: show_int_def)
  from a neg [of i] neg [of j] have s: "i < 0 \<longleftrightarrow> j < 0"
    by simp
  show ?thesis
  proof (cases "i < 0")
    case True
    with s a have "show_nat (nat (- i)) = show_nat (nat (- j))"
      by (simp add: show_int_def)
    from show_nat_inj [OF this] True s show ?thesis by simp
  next
    case False
    with s a have "show_nat (nat i) = show_nat (nat j)"
      by (simp add: show_int_def)
    from show_nat_inj [OF this] False s show ?thesis by simp
  qed
qed

lemma rangeKey_bucketKey:
  "r_relativePath a = r_relativePath b \<Longrightarrow> rangeKey a = rangeKey b \<longleftrightarrow> bucketKey a = bucketKey b"
  by (auto simp: rangeKey_def bucketKey_def dest: show_int_inj)

lemma dedupe_subset: "set (dedupe seen rs) \<subseteq> set rs"
  by (induction rs arbitrary: seen) auto

lemma dedupe_unseen: "r \<in> set (dedupe seen rs) \<Longrightarrow> rangeKey r \<notin> seen"
  by (induction rs arbitrary: seen) (auto split: if_splits)

lemma dedupe_distinct: "distinct (map rangeKey (dedupe seen rs))"
proof (induction rs arbitrary: seen)
  case Nil
  then show ?case by simp
next
  case (Cons x rs)
  have "rangeKey x \<notin> rangeKey ` set (dedupe (insert (rangeKey x) seen) rs)"
    using dedupe_unseen by fastforce
  with Cons show ?case by simp
qed

lemma dedupe_represents:
  "r \<in> set rs \<Longrightarrow> rangeKey r \<notin> seen \<Longrightarrow> \<exists>m \<in> set (dedupe seen rs). rangeKey m = rangeKey r"
proof (induction rs arbitrary: seen)
  case Nil
  then show ?case by simp
next
  case (Cons x rs)
  show ?case
  proof (cases "rangeKey x = rangeKey r")
    case True
    with Cons.prems show ?thesis by auto
  next
    case False
    with Cons.prems have "r \<in> set rs" by auto
    from Cons.IH [OF this, of seen] Cons.IH [OF this, of "insert (rangeKey x) seen"] False Cons.prems(2)
    show ?thesis by auto
  qed
qed

lemma dedupe_best:
  "sorted (map (\<lambda>r. - r_score r) rs) \<Longrightarrow> m \<in> set (dedupe seen rs) \<Longrightarrow> r \<in> set rs \<Longrightarrow>
   rangeKey r = rangeKey m \<Longrightarrow> r_score r \<le> r_score m"
proof (induction rs arbitrary: seen)
  case Nil
  then show ?case by simp
next
  case (Cons x rs)
  from Cons.prems(1) have srt: "sorted (map (\<lambda>r. - r_score r) rs)"
    and le: "\<forall>y \<in> set rs. r_score y \<le> r_score x"
    by auto
  show ?case
  proof (cases "rangeKey x \<in> seen")
    case True
    with Cons.prems(2) have m: "m \<in> set (dedupe seen rs)" by simp
    from dedupe_unseen [OF m] True Cons.prems(4) have "r \<noteq> x" by auto
    with Cons.prems(3) have "r \<in> set rs" by simp
    from Cons.IH [OF srt m this Cons.prems(4)] show ?thesis .
  next
    case False
    show ?thesis
    proof (cases "m = x")
      case True
      with Cons.prems(3) le show ?thesis by auto
    next
      case mx: False
      with False Cons.prems(2) have m: "m \<in> set (dedupe (insert (rangeKey x) seen) rs)" by simp
      from dedupe_unseen [OF m] Cons.prems(4) have "r \<noteq> x" by auto
      with Cons.prems(3) have "r \<in> set rs" by simp
      from Cons.IH [OF srt m this Cons.prems(4)] show ?thesis .
    qed
  qed
qed

lemma set_sortByScore [simp]: "set (sortByScore rs) = set rs"
  by (simp add: sortByScore_def)

lemma sorted_sortByScore: "sorted (map (\<lambda>r. - r_score r) (sortByScore rs))"
  by (simp add: sortByScore_def)

lemma distinct_map_insort_key:
  "distinct (map k (insort_key f x xs)) \<longleftrightarrow> k x \<notin> k ` set xs \<and> distinct (map k xs)"
  by (induction xs) (auto simp: set_insort_key)

lemma distinct_map_sort_key: "distinct (map k (sort_key f xs)) \<longleftrightarrow> distinct (map k xs)"
  by (induction xs) (auto simp: distinct_map_insort_key)

lemma set_slice: "set (slice xs a b) \<subseteq> set xs"
  by (auto simp: slice_def Let_def dest: in_set_takeD in_set_dropD)

lemma distinct_map_slice: "distinct (map k xs) \<Longrightarrow> distinct (map k (slice xs a b))"
  by (simp add: slice_def Let_def take_map [symmetric] drop_map [symmetric] del: take_map drop_map)

lemma slice_all: "int (length (slice xs 0 m)) < m \<Longrightarrow> slice xs 0 m = xs"
  by (auto simp: slice_def Let_def min_def split: if_splits)

lemma slice_0_take: "\<exists>n. slice xs 0 m = take n xs"
  by (auto simp: slice_def Let_def)

lemma mkHit_relativePath [simp]: "r_relativePath (mkHit f ts i s m) = relativePath f"
  by (simp add: mkHit_def Let_def)

lemma mkHit_range:
  assumes "i < length (lines f)"
  shows "1 \<le> r_lineStart (mkHit f ts i s m)"
    and "r_lineStart (mkHit f ts i s m) \<le> r_lineEnd (mkHit f ts i s m)"
    and "r_lineEnd (mkHit f ts i s m) \<le> int (length (lines f))"
    and "r_excerpt (mkHit f ts i s m) =
           join [newline] (lines_between f (r_lineStart (mkHit f ts i s m)) (r_lineEnd (mkHit f ts i s m)))"
proof -
  let ?cs = "max 0 (int i - 2)" and ?ce = "min (int (length (lines f)) - 1) (int i + 5)"
  have s: "r_lineStart (mkHit f ts i s m) = ?cs + 1" and e: "r_lineEnd (mkHit f ts i s m) = ?ce + 1"
    and x: "r_excerpt (mkHit f ts i s m) = join [newline] (slice (lines f) ?cs (?ce + 1))"
    by (simp_all add: mkHit_def Let_def)
  show "1 \<le> r_lineStart (mkHit f ts i s m)"
    unfolding s by simp
  show "r_lineStart (mkHit f ts i s m) \<le> r_lineEnd (mkHit f ts i s m)"
    unfolding s e using assms by auto
  show "r_lineEnd (mkHit f ts i s m) \<le> int (length (lines f))"
    unfolding e by simp
  have "slice (lines f) ?cs (?ce + 1) = drop (nat ?cs) (take (nat (?ce + 1)) (lines f))"
    using assms by (intro slice_nonneg) simp_all
  also have "\<dots> = lines_between f (?cs + 1) (?ce + 1)"
    unfolding lines_between_def
    by (subst upto_nth_lines) simp_all
  finally show "r_excerpt (mkHit f ts i s m) =
      join [newline] (lines_between f (r_lineStart (mkHit f ts i s m)) (r_lineEnd (mkHit f ts i s m)))"
    unfolding s e x by simp
qed

lemma lineHits_elems:
  "lineHits f ts i ls = Inr hits \<Longrightarrow> h \<in> set hits \<Longrightarrow>
   \<exists>j s m. j < length ls \<and> scoreTerms (toLowerCase (ls ! j)) ts (0, 0) = Inr (s, m) \<and> 0 < m
           \<and> h = mkHit f ts (i + j) s m"
proof (induction ls arbitrary: i hits)
  case Nil
  then show ?case by simp
next
  case (Cons l ls)
  from Cons.prems(1) obtain s m rest where
    st: "scoreTerms (toLowerCase l) ts (0, 0) = Inr (s, m)" and
    r: "lineHits f ts (i + 1) ls = Inr rest" and
    h: "hits = (if m > 0 then [mkHit f ts i s m] else []) @ rest"
    by (auto split: sum.splits prod.splits)
  show ?case
  proof (cases "h \<in> set rest")
    case True
    from Cons.IH [OF r True] obtain j s' m' where
      "j < length ls" "scoreTerms (toLowerCase (ls ! j)) ts (0, 0) = Inr (s', m')" "0 < m'"
      "h = mkHit f ts (i + 1 + j) s' m'"
      by blast
    then show ?thesis
      by (intro exI [of _ "Suc j"] exI [of _ s'] exI [of _ m']) simp
  next
    case False
    with Cons.prems(2) h have "m > 0" and "h = mkHit f ts i s m"
      by (auto split: if_splits)
    with st show ?thesis
      by (intro exI [of _ 0] exI [of _ s] exI [of _ m]) simp
  qed
qed

lemma lineHits_hit:
  "lineHits f ts i ls = Inr hits \<Longrightarrow> j < length ls \<Longrightarrow>
   scoreTerms (toLowerCase (ls ! j)) ts (0, 0) = Inr (s, m) \<Longrightarrow> 0 < m \<Longrightarrow>
   mkHit f ts (i + j) s m \<in> set hits"
proof (induction ls arbitrary: i hits j)
  case Nil
  then show ?case by simp
next
  case (Cons l ls)
  from Cons.prems(1) obtain s0 m0 rest where
    st: "scoreTerms (toLowerCase l) ts (0, 0) = Inr (s0, m0)" and
    r: "lineHits f ts (i + 1) ls = Inr rest" and
    h: "hits = (if m0 > 0 then [mkHit f ts i s0 m0] else []) @ rest"
    by (auto split: sum.splits prod.splits)
  show ?case
  proof (cases j)
    case 0
    with Cons.prems st h show ?thesis by auto
  next
    case (Suc k)
    with Cons.prems have "k < length ls" "scoreTerms (toLowerCase (ls ! k)) ts (0, 0) = Inr (s, m)"
      by auto
    from Cons.IH [OF r this Cons.prems(4)] Suc h show ?thesis by simp
  qed
qed

text \<open>What \<open>findMatches\<close> keeps of the hits of a file.\<close>

lemma findMatches_facts:
  assumes "findMatches f ts = Inr ms"
  obtains hits where "lineHits f ts 0 (lines f) = Inr hits"
    and "set ms \<subseteq> set hits"
    and "distinct (map bucketKey ms)"
    and "\<forall>h \<in> set hits. r_relativePath h = relativePath f"
    and "\<forall>h \<in> set hits. \<exists>m \<in> set ms. bucketKey m = bucketKey h"
    and "\<forall>m \<in> set ms. \<forall>h \<in> set hits. bucketKey h = bucketKey m \<longrightarrow> r_score h \<le> r_score m"
proof -
  from assms obtain hits where hits: "lineHits f ts 0 (lines f) = Inr hits"
    and ms: "ms = dedupe {} (sortByScore hits)"
    by (auto simp: findMatches_def split: sum.splits)
  have rp: "\<forall>h \<in> set hits. r_relativePath h = relativePath f"
    using lineHits_elems [OF hits] by fastforce
  have sub: "set ms \<subseteq> set hits"
    unfolding ms using dedupe_subset [of "{}" "sortByScore hits"] by simp
  have key: "rangeKey a = rangeKey b \<longleftrightarrow> bucketKey a = bucketKey b"
    if "a \<in> set hits" "b \<in> set hits" for a b
    using that rp by (intro rangeKey_bucketKey) simp
  have "distinct (map rangeKey ms)"
    unfolding ms by (rule dedupe_distinct)
  then have d: "distinct (map bucketKey ms)"
    using sub key unfolding distinct_map inj_on_def by blast
  have rep: "\<forall>h \<in> set hits. \<exists>m \<in> set ms. bucketKey m = bucketKey h"
  proof
    fix h assume h: "h \<in> set hits"
    then obtain m where m: "m \<in> set ms" "rangeKey m = rangeKey h"
      using dedupe_represents [of h "sortByScore hits" "{}"] unfolding ms by auto
    with key [of m h] sub h show "\<exists>m \<in> set ms. bucketKey m = bucketKey h"
      by blast
  qed
  have best: "\<forall>m \<in> set ms. \<forall>h \<in> set hits. bucketKey h = bucketKey m \<longrightarrow> r_score h \<le> r_score m"
  proof (intro ballI impI)
    fix m h assume m: "m \<in> set ms" and h: "h \<in> set hits" and k: "bucketKey h = bucketKey m"
    from key [of h m] sub m h k have "rangeKey h = rangeKey m"
      by blast
    with dedupe_best [OF sorted_sortByScore, of m "{}" hits h] m h show "r_score h \<le> r_score m"
      unfolding ms by simp
  qed
  from that [OF hits sub d rp rep best] show thesis .
qed

lemma searchFiles_Cons_scanned:
  assumes "searchFiles sc globs ts ((rp, f) # fl) = Inr rs" and "scanned sc globs (rp, f)"
  obtains ms others where "findMatches f ts = Inr ms" and "searchFiles sc globs ts fl = Inr others"
    and "rs = ms @ others"
  using assms
  by (auto simp: scanned_def globs_accept_def split: option.splits sum.splits if_splits)

lemma searchFiles_Cons_skipped:
  assumes "searchFiles sc globs ts ((rp, f) # fl) = Inr rs" and "\<not> scanned sc globs (rp, f)"
  shows "searchFiles sc globs ts fl = Inr rs"
  using assms
  by (auto simp: scanned_def globs_accept_def split: option.splits sum.splits if_splits)

lemma searchFiles_elems:
  "searchFiles sc globs ts fl = Inr rs \<Longrightarrow> r \<in> set rs \<Longrightarrow>
   \<exists>e ms. e \<in> set fl \<and> scanned sc globs e \<and> findMatches (snd e) ts = Inr ms \<and> r \<in> set ms"
proof (induction fl arbitrary: rs)
  case Nil
  then show ?case by simp
next
  case (Cons a fl)
  obtain rp f where a: "a = (rp, f)" by (cases a)
  show ?case
  proof (cases "scanned sc globs (rp, f)")
    case True
    from Cons.prems(1) [unfolded a] True obtain ms others where
      ms: "findMatches f ts = Inr ms" and o: "searchFiles sc globs ts fl = Inr others"
      and rs: "rs = ms @ others"
      by (rule searchFiles_Cons_scanned)
    show ?thesis
    proof (cases "r \<in> set ms")
      case r: True
      with True ms a show ?thesis
        by (intro exI [of _ a] exI [of _ ms]) simp
    next
      case False
      with Cons.prems(2) rs have "r \<in> set others" by simp
      from Cons.IH [OF o this] show ?thesis by auto
    qed
  next
    case False
    from searchFiles_Cons_skipped [OF Cons.prems(1) [unfolded a] False] Cons.IH Cons.prems(2)
    show ?thesis by fastforce
  qed
qed

lemma searchFiles_contains:
  "searchFiles sc globs ts fl = Inr rs \<Longrightarrow> e \<in> set fl \<Longrightarrow> scanned sc globs e \<Longrightarrow>
   \<exists>ms. findMatches (snd e) ts = Inr ms \<and> set ms \<subseteq> set rs"
proof (induction fl arbitrary: rs)
  case Nil
  then show ?case by simp
next
  case (Cons a fl)
  obtain rp f where a: "a = (rp, f)" by (cases a)
  show ?case
  proof (cases "scanned sc globs (rp, f)")
    case True
    from Cons.prems(1) [unfolded a] True obtain ms others where
      ms: "findMatches f ts = Inr ms" and o: "searchFiles sc globs ts fl = Inr others"
      and rs: "rs = ms @ others"
      by (rule searchFiles_Cons_scanned)
    show ?thesis
    proof (cases "e = a")
      case e: True
      with ms rs a show ?thesis by simp
    next
      case False
      with Cons.prems(2) have "e \<in> set fl" by simp
      from Cons.IH [OF o this Cons.prems(3)] rs show ?thesis by auto
    qed
  next
    case False
    with Cons.prems(2,3) a have "e \<in> set fl" by auto
    from Cons.IH [OF searchFiles_Cons_skipped [OF Cons.prems(1) [unfolded a] False] this Cons.prems(3)]
    show ?thesis .
  qed
qed

lemma searchFiles_paths:
  assumes "searchFiles sc globs ts fl = Inr rs" and "r \<in> set rs"
    and "\<forall>(rp, f) \<in> set fl. relativePath f = rp"
  shows "\<exists>f hits. (r_relativePath r, f) \<in> set fl \<and> scanned sc globs (r_relativePath r, f)
           \<and> lineHits f ts 0 (lines f) = Inr hits \<and> r \<in> set hits
           \<and> (\<forall>h \<in> set hits. bucketKey h = bucketKey r \<longrightarrow> r_score h \<le> r_score r)"
proof -
  from searchFiles_elems [OF assms(1,2)] obtain e ms where
    e: "e \<in> set fl" "scanned sc globs e" and ms: "findMatches (snd e) ts = Inr ms" and r: "r \<in> set ms"
    by blast
  from ms obtain hits where h: "lineHits (snd e) ts 0 (lines (snd e)) = Inr hits"
    "set ms \<subseteq> set hits" "\<forall>h \<in> set hits. r_relativePath h = relativePath (snd e)"
    "\<forall>m \<in> set ms. \<forall>h \<in> set hits. bucketKey h = bucketKey m \<longrightarrow> r_score h \<le> r_score m"
    by (rule findMatches_facts)
  from e(1) assms(3) have "relativePath (snd e) = fst e"
    by (cases e) auto
  with h(2,3) r have "r_relativePath r = fst e"
    by auto
  with e h r show ?thesis
    by (intro exI [of _ "snd e"] exI [of _ hits]) auto
qed

lemma searchFiles_distinct:
  "searchFiles sc globs ts fl = Inr rs \<Longrightarrow> distinct (map fst fl) \<Longrightarrow>
   \<forall>(rp, f) \<in> set fl. relativePath f = rp \<Longrightarrow> distinct (map bucketKey rs)"
proof (induction fl arbitrary: rs)
  case Nil
  then show ?case by simp
next
  case (Cons a fl)
  obtain rp f where a: "a = (rp, f)" by (cases a)
  from Cons.prems(2,3) have d: "distinct (map fst fl)" and w: "\<forall>(rp, f) \<in> set fl. relativePath f = rp"
    and n: "rp \<notin> fst ` set fl" and f: "relativePath f = rp"
    unfolding a by auto
  show ?case
  proof (cases "scanned sc globs (rp, f)")
    case True
    from Cons.prems(1) [unfolded a] True obtain ms others where
      ms: "findMatches f ts = Inr ms" and o: "searchFiles sc globs ts fl = Inr others"
      and rs: "rs = ms @ others"
      by (rule searchFiles_Cons_scanned)
    from ms obtain hits where h: "set ms \<subseteq> set hits" "distinct (map bucketKey ms)"
      "\<forall>h \<in> set hits. r_relativePath h = relativePath f"
      by (rule findMatches_facts)
    have "fst (bucketKey m) = rp" if "m \<in> set ms" for m
      using that h f by (auto simp: bucketKey_def)
    moreover have "fst (bucketKey r) \<noteq> rp" if "r \<in> set others" for r
      using searchFiles_paths [OF o that w] n by (force simp: bucketKey_def)
    ultimately have "bucketKey ` set ms \<inter> bucketKey ` set others = {}"
      by fastforce
    with h(2) Cons.IH [OF o d w] show ?thesis
      unfolding rs by simp
  next
    case False
    from Cons.IH [OF searchFiles_Cons_skipped [OF Cons.prems(1) [unfolded a] False] d w]
    show ?thesis .
  qed
qed

lemma wf_index_map_of: "wf_index idx \<Longrightarrow> (rp, f) \<in> set (files idx) \<Longrightarrow> map_of (files idx) rp = Some f"
  by (simp add: wf_index_def)

lemma search_result:
  assumes "search idx query options = Inr rs"
  obtains results where
    "searchFiles (scopeOf options) (fileGlobs options) (queryTermsOf query) (files idx) = Inr results"
    and "rs = slice (sortByScore results) 0 (limitOf options)"
  using assms by (auto simp: search_def scopeOf_def limitOf_def split: sum.splits)

lemma search_ranked:
  assumes "search idx query options = Inr rs"
  obtains results where
    "searchFiles (scopeOf options) (fileGlobs options) (queryTermsOf query) (files idx) = Inr results"
    and "rankedResults idx query options = Inr (sortByScore results)"
    and "rs = slice (sortByScore results) 0 (limitOf options)"
  using assms
  by (auto simp: search_def rankedResults_def scopeOf_def limitOf_def split: sum.splits)

lemma cut_lowest:
  assumes "sorted (map (\<lambda>r. - r_score r) S)" and "r \<in> set S" and "r \<notin> set (slice S 0 m)"
    and "x \<in> set (slice S 0 m)"
  shows "r_score r \<le> r_score x"
proof -
  obtain n where n: "slice S 0 m = take n S"
    using slice_0_take by blast
  from assms(2,3) have r: "r \<in> set (drop n S)"
    unfolding n using set_append [of "take n S" "drop n S"] by auto
  from assms(4) have x: "x \<in> set (take n S)"
    by (simp add: n)
  from assms(1) have "sorted (map (\<lambda>r. - r_score r) (take n S) @ map (\<lambda>r. - r_score r) (drop n S))"
    by (simp add: map_append [symmetric] del: map_append)
  then have "\<forall>a \<in> set (take n S). \<forall>b \<in> set (drop n S). - r_score a \<le> - r_score b"
    by (simp add: sorted_append)
  with r x show ?thesis
    by auto
qed

text \<open>
  Claim C2, as amended.  \<open>search\<close> deduplicates and sorts before it cuts the list at
  \<open>maxResults\<close>.  The deduplicated, sorted list has at most one result for each file and
  bucket \<open>floor(lineStart / 10)\<close>; every one of its results is a hit of its file, and no
  hit of that file in the same bucket has a higher score: of the hits of a bucket only a
  highest-scoring one survives.  Deduplication never merges buckets: every bucket in which
  a scanned file has a hit has its result in that list.  The list returned is that list cut
  by \<open>slice(0, maxResults)\<close>: it has at most one result for each bucket as well, and a
  result that the cut leaves out scores no higher than any result returned.
\<close>

theorem search_deduplicates:
  assumes "wf_index idx" and "search idx query options = Inr rs"
  shows "\<exists>ranking. rankedResults idx query options = Inr ranking
    \<and> rs = slice ranking 0 (limitOf options)
    \<and> distinct (map bucketKey ranking)
    \<and> (\<forall>r \<in> set ranking. \<exists>f hits.
          map_of (files idx) (r_relativePath r) = Some f
          \<and> lineHits f (queryTermsOf query) 0 (lines f) = Inr hits \<and> r \<in> set hits
          \<and> (\<forall>h \<in> set hits. bucketKey h = bucketKey r \<longrightarrow> r_score h \<le> r_score r))
    \<and> (\<forall>e \<in> set (files idx). scanned (scopeOf options) (fileGlobs options) e \<longrightarrow>
          (\<exists>hits. lineHits (snd e) (queryTermsOf query) 0 (lines (snd e)) = Inr hits
             \<and> (\<forall>h \<in> set hits. \<exists>r \<in> set ranking. bucketKey r = bucketKey h)))
    \<and> set rs \<subseteq> set ranking
    \<and> distinct (map bucketKey rs)
    \<and> (\<forall>r \<in> set ranking. r \<notin> set rs \<longrightarrow> (\<forall>x \<in> set rs. r_score r \<le> r_score x))"
proof -
  let ?ts = "queryTermsOf query"
  from assms(2) obtain results where
    sf: "searchFiles (scopeOf options) (fileGlobs options) ?ts (files idx) = Inr results"
    and rk: "rankedResults idx query options = Inr (sortByScore results)"
    and rs: "rs = slice (sortByScore results) 0 (limitOf options)"
    by (rule search_ranked)
  let ?ranking = "sortByScore results"
  from assms(1) have d: "distinct (map fst (files idx))"
    and w: "\<forall>(rp, f) \<in> set (files idx). relativePath f = rp"
    by (simp_all add: wf_index_def)
  from searchFiles_distinct [OF sf d w] have dr: "distinct (map bucketKey ?ranking)"
    unfolding sortByScore_def by (simp add: distinct_map_sort_key)
  then have drs: "distinct (map bucketKey rs)"
    unfolding rs by (rule distinct_map_slice)
  have sub: "set rs \<subseteq> set ?ranking"
    unfolding rs by (rule set_slice)
  have best: "\<forall>r \<in> set ?ranking. \<exists>f hits.
          map_of (files idx) (r_relativePath r) = Some f
          \<and> lineHits f ?ts 0 (lines f) = Inr hits \<and> r \<in> set hits
          \<and> (\<forall>h \<in> set hits. bucketKey h = bucketKey r \<longrightarrow> r_score h \<le> r_score r)"
  proof
    fix r assume "r \<in> set ?ranking"
    then have "r \<in> set results"
      by simp
    from searchFiles_paths [OF sf this w] wf_index_map_of [OF assms(1)]
    show "\<exists>f hits. map_of (files idx) (r_relativePath r) = Some f
          \<and> lineHits f ?ts 0 (lines f) = Inr hits \<and> r \<in> set hits
          \<and> (\<forall>h \<in> set hits. bucketKey h = bucketKey r \<longrightarrow> r_score h \<le> r_score r)"
      by blast
  qed
  have kept: "\<forall>e \<in> set (files idx). scanned (scopeOf options) (fileGlobs options) e \<longrightarrow>
          (\<exists>hits. lineHits (snd e) ?ts 0 (lines (snd e)) = Inr hits
             \<and> (\<forall>h \<in> set hits. \<exists>r \<in> set ?ranking. bucketKey r = bucketKey h))"
  proof (intro ballI impI)
    fix e assume e: "e \<in> set (files idx)"
      and sc: "scanned (scopeOf options) (fileGlobs options) e"
    from searchFiles_contains [OF sf e sc] obtain ms where
      ms: "findMatches (snd e) ?ts = Inr ms" and msub: "set ms \<subseteq> set results"
      by blast
    from ms obtain hits where "lineHits (snd e) ?ts 0 (lines (snd e)) = Inr hits"
      and "\<forall>h \<in> set hits. \<exists>m \<in> set ms. bucketKey m = bucketKey h"
      by (rule findMatches_facts)
    with msub show "\<exists>hits. lineHits (snd e) ?ts 0 (lines (snd e)) = Inr hits
               \<and> (\<forall>h \<in> set hits. \<exists>r \<in> set ?ranking. bucketKey r = bucketKey h)"
      by (simp only: set_sortByScore) blast
  qed
  have cut: "\<forall>r \<in> set ?ranking. r \<notin> set rs \<longrightarrow> (\<forall>x \<in> set rs. r_score r \<le> r_score x)"
    unfolding rs using cut_lowest [OF sorted_sortByScore [of results]] by blast
  from rk rs dr best kept sub drs cut show ?thesis
    by blast
qed

lemma three_hits_cut:
  "isl (search three_hits_index ''question'' (examples_only (Some 1))) = False
   \<and> map bucketKey (projr (search three_hits_index ''question'' (examples_only (Some 1)))) =
       [(example_path ''q.yml'', 0)]"
  by (simp add: search_eval three_hits_files three_hits_def corpus_eval examples_only_def
      string_eval regexp_eval match_eval rangeKey_def show_int_def show_nat.simps bucketKey_def)

lemma three_hits_ranked:
  "map bucketKey (projr (rankedResults three_hits_index ''question'' (examples_only (Some 1)))) =
       [(example_path ''q.yml'', 0), (example_path ''q.yml'', 1)]"
  by (simp add: rankedResults_def search_eval three_hits_files three_hits_def corpus_eval examples_only_def
      string_eval regexp_eval match_eval rangeKey_def show_int_def show_nat.simps bucketKey_def)

lemma three_hits_buckets:
  "map bucketKey (projr (lineHits three_hits (queryTermsOf ''question'') 0 (lines three_hits))) =
     [(example_path ''q.yml'', 0), (example_path ''q.yml'', 0), (example_path ''q.yml'', 1)]"
  by (simp add: three_hits_def corpus_eval string_eval regexp_eval match_eval mkHit_def
      truthy_title_def bucketKey_def)

lemma three_hits_lines:
  "map r_lineStart (projr (lineHits three_hits (queryTermsOf ''question'') 0 (lines three_hits))) =
     [1, 2, 11]"
  by (simp add: three_hits_def corpus_eval string_eval regexp_eval match_eval mkHit_def
      truthy_title_def)

theorem search_deduplicates_witness:
  "map bucketKey (projr (rankedResults three_hits_index ''question'' (examples_only (Some 1)))) =
       [(example_path ''q.yml'', 0), (example_path ''q.yml'', 1)]
   \<and> distinct (map bucketKey (projr (rankedResults three_hits_index ''question'' (examples_only (Some 1)))))
   \<and> map r_lineStart (projr (lineHits three_hits (queryTermsOf ''question'') 0 (lines three_hits))) =
       [1, 2, 11]
   \<and> set (map bucketKey (projr (lineHits three_hits (queryTermsOf ''question'') 0 (lines three_hits))))
       \<subseteq> set (map bucketKey (projr (rankedResults three_hits_index ''question'' (examples_only (Some 1)))))
   \<and> projr (search three_hits_index ''question'' (examples_only (Some 1))) =
       slice (projr (rankedResults three_hits_index ''question'' (examples_only (Some 1)))) 0 1
   \<and> map bucketKey (projr (search three_hits_index ''question'' (examples_only (Some 1)))) =
       [(example_path ''q.yml'', 0)]"
proof -
  let ?opts = "examples_only (Some 1)"
  obtain rs where rs: "search three_hits_index ''question'' ?opts = Inr rs"
    using three_hits_cut by (cases "search three_hits_index ''question'' ?opts") auto
  have wf: "wf_index three_hits_index"
    unfolding three_hits_index_def by (rule wf_index_ingested) (simp add: text_file_def)
  have mem: "(example_path ''q.yml'', three_hits) \<in> set (files three_hits_index)"
    by (simp add: three_hits_files)
  have sc: "scanned (scopeOf ?opts) (fileGlobs ?opts) (example_path ''q.yml'', three_hits)"
    by (simp add: scanned_def scopeOf_def examples_only_def globs_accept_def matchesScope_def
        three_hits_def example_file_def)
  have lim: "limitOf ?opts = 1"
    by (simp add: limitOf_def examples_only_def)
  from search_deduplicates [OF wf rs] obtain ranking where
    rk: "rankedResults three_hits_index ''question'' ?opts = Inr ranking"
    and cut: "rs = slice ranking 0 (limitOf ?opts)"
    and d: "distinct (map bucketKey ranking)"
    and kept: "\<forall>e \<in> set (files three_hits_index). scanned (scopeOf ?opts) (fileGlobs ?opts) e \<longrightarrow>
          (\<exists>hits. lineHits (snd e) (queryTermsOf ''question'') 0 (lines (snd e)) = Inr hits
             \<and> (\<forall>h \<in> set hits. \<exists>r \<in> set ranking. bucketKey r = bucketKey h))"
    by blast
  from kept mem sc obtain hits where
    hits: "lineHits three_hits (queryTermsOf ''question'') 0 (lines three_hits) = Inr hits"
    and rep: "\<forall>h \<in> set hits. \<exists>r \<in> set ranking. bucketKey r = bucketKey h"
    by fastforce
  have "bucketKey ` set hits \<subseteq> bucketKey ` set ranking"
  proof
    fix k assume "k \<in> bucketKey ` set hits"
    then obtain h where "h \<in> set hits" and "k = bucketKey h"
      by auto
    with rep obtain r where "r \<in> set ranking" and "bucketKey r = k"
      by auto
    then show "k \<in> bucketKey ` set ranking"
      by auto
  qed
  then have sub: "set (map bucketKey (projr (lineHits three_hits (queryTermsOf ''question'') 0 (lines three_hits))))
       \<subseteq> set (map bucketKey ranking)"
    by (simp add: hits)
  let ?ranked = "projr (rankedResults three_hits_index ''question'' ?opts)"
  have sel: "?ranked = ranking"
    by (simp add: rk)
  have c1: "map bucketKey ?ranked = [(example_path ''q.yml'', 0), (example_path ''q.yml'', 1)]"
    by (rule three_hits_ranked)
  have c2: "distinct (map bucketKey ?ranked)"
    unfolding sel by (rule d)
  have c3: "map r_lineStart (projr (lineHits three_hits (queryTermsOf ''question'') 0 (lines three_hits))) =
       [1, 2, 11]"
    by (rule three_hits_lines)
  have c4: "set (map bucketKey (projr (lineHits three_hits (queryTermsOf ''question'') 0 (lines three_hits))))
       \<subseteq> set (map bucketKey ?ranked)"
    unfolding sel by (rule sub)
  have c5: "projr (search three_hits_index ''question'' ?opts) = slice ?ranked 0 1"
    unfolding sel using cut lim by (simp add: rs)
  have c6: "map bucketKey (projr (search three_hits_index ''question'' ?opts)) =
       [(example_path ''q.yml'', 0)]"
    using three_hits_cut by blast
  from c1 c2 c3 c4 c5 c6 show ?thesis
    by (intro conjI)
qed

text \<open>
  Claim C2 as stated fails when the list is cut: the file has hits in buckets 0 and 1, and
  the search with \<open>maxResults = 1\<close> returns the result of bucket 0 only.
\<close>

theorem search_cut_counterexample:
  "map_of (files three_hits_index) (example_path ''q.yml'') = Some three_hits
   \<and> map bucketKey (projr (lineHits three_hits (queryTermsOf ''question'') 0 (lines three_hits))) =
       [(example_path ''q.yml'', 0), (example_path ''q.yml'', 0), (example_path ''q.yml'', 1)]
   \<and> isl (search three_hits_index ''question'' (examples_only (Some 1))) = False
   \<and> map bucketKey (projr (search three_hits_index ''question'' (examples_only (Some 1)))) =
       [(example_path ''q.yml'', 0)]"
  using three_hits_cut three_hits_buckets by (simp add: three_hits_files)

section \<open>Line ranges of results and citations\<close>

lemma search_line_range:
  assumes "wf_index idx" and "search idx query options = Inr rs" and "r \<in> set rs"
  shows "\<exists>f. map_of (files idx) (r_relativePath r) = Some f
           \<and> 1 \<le> r_lineStart r \<and> r_lineStart r \<le> r_lineEnd r
           \<and> r_lineEnd r \<le> int (length (lines f))
           \<and> r_excerpt r = join [newline] (lines_between f (r_lineStart r) (r_lineEnd r))"
proof -
  from assms(2) obtain results where
    sf: "searchFiles (scopeOf options) (fileGlobs options) (queryTermsOf query) (files idx) = Inr results"
    and rs: "rs = slice (sortByScore results) 0 (limitOf options)"
    by (rule search_result)
  from assms(3) have "r \<in> set results"
    unfolding rs using set_slice [of "sortByScore results"] by auto
  moreover from assms(1) have "\<forall>(rp, f) \<in> set (files idx). relativePath f = rp"
    by (simp add: wf_index_def)
  ultimately obtain f hits where f: "(r_relativePath r, f) \<in> set (files idx)"
    and h: "lineHits f (queryTermsOf query) 0 (lines f) = Inr hits" "r \<in> set hits"
    using searchFiles_paths [OF sf] by blast
  from lineHits_elems [OF h] obtain j s m where j: "j < length (lines f)"
    and r: "r = mkHit f (queryTermsOf query) j s m"
    by auto
  from mkHit_range [OF j, of "queryTermsOf query" s m] wf_index_map_of [OF assms(1) f]
  show ?thesis
    unfolding r by (intro exI [of _ f]) simp
qed

text \<open>
  Claim C5, as amended.  Every result that \<open>search\<close> returns carries a line range, counted
  from 1 and inclusive, that lies within the stored lines of its file, and its excerpt is
  exactly those lines.  Every citation that \<open>createCitation\<close> returns carries the path and
  the requested \<open>lineStart\<close> and \<open>lineEnd\<close> unchanged; when the requested range lies within
  the file, its excerpt is exactly lines \<open>lineStart\<close> through \<open>lineEnd\<close>.
\<close>

theorem line_ranges:
  "(wf_index idx \<and> search idx query options = Inr rs \<and> r \<in> set rs \<longrightarrow>
      (\<exists>f. map_of (files idx) (r_relativePath r) = Some f
         \<and> 1 \<le> r_lineStart r \<and> r_lineStart r \<le> r_lineEnd r
         \<and> r_lineEnd r \<le> int (length (lines f))
         \<and> r_excerpt r = join [newline] (lines_between f (r_lineStart r) (r_lineEnd r))))
   \<and> (createCitation idx rp lineStart lineEnd reason = Some c \<longrightarrow>
      (\<exists>f. map_of (files idx) rp = Some f
         \<and> c_path c = rp \<and> c_lineStart c = lineStart \<and> c_lineEnd c = lineEnd
         \<and> (1 \<le> lineStart \<and> lineStart \<le> lineEnd \<and> lineEnd \<le> int (length (lines f)) \<longrightarrow>
              c_excerpt c = join [newline] (lines_between f lineStart lineEnd))))"
proof (intro conjI impI)
  assume "wf_index idx \<and> search idx query options = Inr rs \<and> r \<in> set rs"
  then show "\<exists>f. map_of (files idx) (r_relativePath r) = Some f
         \<and> 1 \<le> r_lineStart r \<and> r_lineStart r \<le> r_lineEnd r
         \<and> r_lineEnd r \<le> int (length (lines f))
         \<and> r_excerpt r = join [newline] (lines_between f (r_lineStart r) (r_lineEnd r))"
    using search_line_range by blast
next
  assume c: "createCitation idx rp lineStart lineEnd reason = Some c"
  then obtain f where f: "map_of (files idx) rp = Some f"
    by (auto simp: createCitation_def split: option.splits)
  from c f have x: "c_path c = rp" "c_lineStart c = lineStart" "c_lineEnd c = lineEnd"
    and ex: "c_excerpt c = join [newline]
        (slice (lines f) (max 0 (lineStart - 1)) (min (int (length (lines f))) lineEnd))"
    by (auto simp: createCitation_def getSnippet_def Let_def split: if_splits)
  have "c_excerpt c = join [newline] (lines_between f lineStart lineEnd)"
    if "1 \<le> lineStart \<and> lineStart \<le> lineEnd \<and> lineEnd \<le> int (length (lines f))"
  proof -
    from that have nn: "0 \<le> lineEnd" by simp
    from that have "max 1 lineStart = lineStart" and "min (int (length (lines f))) lineEnd = lineEnd"
      by simp_all
    then have cl: "clamped_lines f lineStart lineEnd = lines_between f lineStart lineEnd"
      by (simp only: clamped_lines_def)
    show ?thesis
      unfolding ex snippet_is_clamped [OF nn] cl ..
  qed
  with f x show "\<exists>f. map_of (files idx) rp = Some f
         \<and> c_path c = rp \<and> c_lineStart c = lineStart \<and> c_lineEnd c = lineEnd
         \<and> (1 \<le> lineStart \<and> lineStart \<le> lineEnd \<and> lineEnd \<le> int (length (lines f)) \<longrightarrow>
              c_excerpt c = join [newline] (lines_between f lineStart lineEnd))"
    by blast
qed

lemma alpha_search: "search two_lines_index ''alpha'' default_options = Inr [alpha_hit]"
  by (simp add: search_eval two_lines_files two_lines_def corpus_eval default_options_def
      string_eval regexp_eval match_eval rangeKey_def show_int_def show_nat.simps alpha_hit_def)

lemma alpha_cite:
  "createCitation two_lines_index (example_path ''a.yml'') 1 2 None = Some alpha_citation"
  by (simp add: two_lines_files two_lines_def example_file_def createCitation_def getSnippet_def
      slice_def alpha_citation_def newline_def)

theorem line_ranges_witness:
  "r_lineStart alpha_hit = 1 \<and> r_lineEnd alpha_hit = 2
   \<and> r_excerpt alpha_hit = join [newline] (lines_between two_lines 1 2)
   \<and> c_excerpt alpha_citation = join [newline] (lines_between two_lines 1 2)"
proof -
  have f: "map_of (files two_lines_index) (example_path ''a.yml'') = Some two_lines"
    by (simp add: two_lines_files)
  have wf: "wf_index two_lines_index"
    unfolding two_lines_index_def by (rule wf_index_ingested) (simp add: text_file_def)
  have "wf_index two_lines_index \<and> search two_lines_index ''alpha'' default_options = Inr [alpha_hit]
        \<and> alpha_hit \<in> set [alpha_hit]"
    using wf alpha_search by simp
  moreover have "r_relativePath alpha_hit = example_path ''a.yml''" "r_lineStart alpha_hit = 1"
    "r_lineEnd alpha_hit = 2"
    by (simp_all add: alpha_hit_def)
  moreover have "(1::int) \<le> 1 \<and> (1::int) \<le> 2 \<and> 2 \<le> int (length (lines two_lines))"
    by (simp add: two_lines_def example_file_def)
  ultimately show ?thesis
    using line_ranges [of two_lines_index "''alpha''" default_options "[alpha_hit]" alpha_hit
        "example_path ''a.yml''" 1 2 None alpha_citation] alpha_cite f
    by auto
qed

text \<open>
  Claim C5 as stated fails for citations: the request for lines 0 to 7 of a file of two
  lines is answered with a citation that carries 0 and 7, outside the bounds of the file.
\<close>

theorem citation_range_counterexample:
  "createCitation two_lines_index (example_path ''a.yml'') 0 7 None =
     Some \<lparr>c_path = example_path ''a.yml'', c_lineStart = 0, c_lineEnd = 7,
           c_excerpt = ''alpha'' @ [newline] @ ''beta'', c_reason = None\<rparr>
   \<and> \<not> (1 \<le> (0::int)) \<and> \<not> (7 \<le> int (length (lines two_lines)))"
  by (simp add: two_lines_files two_lines_def example_file_def createCitation_def getSnippet_def
      slice_def newline_def)

section \<open>The field declaration boost\<close>

lemma question_pattern: "\<exists>r. RegExp (word_pattern ''question'') = Inr r"
  by (simp add: regexp_eval)

lemma question_terms: "queryTermsOf ''question'' = [''question'']"
  by (simp add: string_eval)

lemma question_line_score:
  "scoreTerms (toLowerCase ''question: |'') [''question''] (0, 0) = Inr (35, 1)"
  by (simp add: regexp_eval match_eval string_eval)

lemma one_term_score:
  "scoreTerms l [t] (0, 0) = Inr (s, m) \<Longrightarrow> 0 < m \<Longrightarrow>
   m = 1 \<and> (\<not> startsWith l (t @ '':'') \<longrightarrow> s \<le> 15)"
  by (auto split: if_splits sum.splits)

lemma mkHit_score_one: "r_score (mkHit f [t] i s 1) = s + 10 \<or> r_score (mkHit f [t] i s 1) = s + 25"
  by (simp add: mkHit_def Let_def split: option.splits)

lemma searchFiles_total:
  "\<forall>t \<in> set ts. \<exists>r. RegExp (word_pattern t) = Inr r \<Longrightarrow> \<exists>rs. searchFiles sc None ts fl = Inr rs"
proof (cases "searchFiles sc None ts fl")
  case (Inl e)
  assume a: "\<forall>t \<in> set ts. \<exists>r. RegExp (word_pattern t) = Inr r"
  from searchFiles_error_source [OF Inl] obtain t where "t \<in> set ts" "RegExp (word_pattern t) = Inl e"
    by auto
  with a show ?thesis by fastforce
next
  case (Inr rs)
  then show ?thesis by blast
qed

lemma prose_hits_low:
  assumes "lineHits f [''question''] 0 (lines f) = Inr hits" and "h \<in> set hits"
    and "\<forall>l \<in> set (lines f). \<not> startsWith (toLowerCase l) ''question:''"
  shows "r_score h \<le> 40"
proof -
  from lineHits_elems [OF assms(1,2)] obtain j s m where j: "j < length (lines f)"
    and st: "scoreTerms (toLowerCase (lines f ! j)) [''question''] (0, 0) = Inr (s, m)"
    and m: "0 < m" and h: "h = mkHit f [''question''] j s m"
    by auto
  from j assms(3) have "\<not> startsWith (toLowerCase (lines f ! j)) (''question'' @ '':'')"
    by simp
  with one_term_score [OF st m] have "m = 1" and "s \<le> 15"
    by simp_all
  with mkHit_score_one [of f "''question''" j s] show ?thesis
    unfolding h by auto
qed

lemma field_hit_high:
  assumes "lineHits f [''question''] 0 (lines f) = Inr hits" and "''question: |'' \<in> set (lines f)"
  shows "\<exists>h \<in> set hits. 45 \<le> r_score h"
proof -
  from assms(2) obtain j where j: "j < length (lines f)" and l: "lines f ! j = ''question: |''"
    by (auto simp: in_set_conv_nth)
  from question_line_score l
  have "scoreTerms (toLowerCase (lines f ! j)) [''question''] (0, 0) = Inr (35, 1)"
    by simp
  from lineHits_hit [OF assms(1) j this] have "mkHit f [''question''] j 35 1 \<in> set hits"
    by simp
  moreover have "45 \<le> r_score (mkHit f [''question''] j 35 1)"
    using mkHit_score_one [of f "''question''" j 35] by auto
  ultimately show ?thesis
    by blast
qed

lemma sorted_desc_before:
  assumes "sorted (map (\<lambda>r. - r_score r) S)" and "a \<in> set S" and "j < length S"
    and "r_score (S ! j) < r_score a"
  shows "\<exists>i < j. S ! i = a"
proof -
  from assms(2) obtain i where i: "i < length S" "S ! i = a"
    by (auto simp: in_set_conv_nth)
  have "i < j"
  proof (rule ccontr)
    assume "\<not> i < j"
    then have "j \<le> i" by simp
    with assms(1) i(1) have "(map (\<lambda>r. - r_score r) S) ! j \<le> (map (\<lambda>r. - r_score r) S) ! i"
      by (intro sorted_nth_mono) simp_all
    with i assms(3,4) show False by simp
  qed
  with i show ?thesis by blast
qed

text \<open>
  Claim C7.  On a corpus of exactly two example files, one with a line that is exactly
  \<open>question: |\<close> and the other with no line that begins with \<open>question:\<close>, the search for
  \<open>question\<close> in scope examples returns a list in which every result of the second file
  comes after a result of the first file with a strictly higher score; when the limit is
  at least 1 the first result is one of the first file.  A hit of the second file scores
  at most 40 (10, the word boundary 5, the coverage 10, the title 15), the field line at
  least 45.
\<close>

theorem field_declaration_ranks_first:
  assumes "wf_index idx"
    and "map snd (files idx) = [f1, f2] \<or> map snd (files idx) = [f2, f1]"
    and "type f1 = Example" and "type f2 = Example"
    and "''question: |'' \<in> set (lines f1)"
    and "\<forall>l \<in> set (lines f2). \<not> startsWith (toLowerCase l) ''question:''"
  shows "\<exists>rs. search idx ''question'' (examples_only limit) = Inr rs
    \<and> (\<forall>j < length rs. r_relativePath (rs ! j) = relativePath f2 \<longrightarrow>
          (\<exists>i < j. r_relativePath (rs ! i) = relativePath f1 \<and> r_score (rs ! j) < r_score (rs ! i)))
    \<and> ((case limit of None \<Rightarrow> True | Some m \<Rightarrow> 1 \<le> m) \<longrightarrow>
          rs \<noteq> [] \<and> r_relativePath (hd rs) = relativePath f1)"
proof -
  let ?ts = "[''question'']"
  have opts: "scopeOf (examples_only limit) = Examples" "fileGlobs (examples_only limit) = None"
    by (simp_all add: examples_only_def scopeOf_def)
  from assms(1) have w: "\<forall>(rp, f) \<in> set (files idx). relativePath f = rp"
    and d: "distinct (map fst (files idx))"
    by (simp_all add: wf_index_def)
  from assms(2) have "set (map snd (files idx)) = {f1, f2}"
    by auto
  then have mem: "snd ` set (files idx) = {f1, f2}"
    by simp
  from mem obtain k1 where "(k1, f1) \<in> set (files idx)"
    by force
  with w have e1: "(relativePath f1, f1) \<in> set (files idx)"
    by auto
  from mem obtain k2 where "(k2, f2) \<in> set (files idx)"
    by force
  with w have e2: "(relativePath f2, f2) \<in> set (files idx)"
    by auto
  have ne: "relativePath f1 \<noteq> relativePath f2"
  proof
    assume eq: "relativePath f1 = relativePath f2"
    from e1 have "(relativePath f2, f1) \<in> set (files idx)"
      unfolding eq .
    from eq_key_imp_eq_value [OF d this e2] have "f1 = f2" .
    with assms(5,6) have "\<not> startsWith (toLowerCase ''question: |'') ''question:''"
      by blast
    then show False
      by (simp add: string_eval)
  qed
  obtain results where sf: "searchFiles Examples None ?ts (files idx) = Inr results"
    using searchFiles_total [of ?ts Examples "files idx"] question_pattern by auto
  define S where "S = sortByScore results"
  obtain n where rs: "slice S 0 (limitOf (examples_only limit)) = take n S"
    using slice_0_take by blast
  have s: "search idx ''question'' (examples_only limit) = Inr (take n S)"
    using sf rs by (simp add: search_def question_terms opts S_def limitOf_def scopeOf_def
        examples_only_def)
  have srt: "sorted (map (\<lambda>r. - r_score r) S)"
    unfolding S_def by (rule sorted_sortByScore)
  have setS: "set S = set results"
    unfolding S_def by simp
  have sc1: "scanned Examples None (relativePath f1, f1)"
    by (simp add: scanned_def matchesScope_def assms(3) globs_accept_def)
  from searchFiles_contains [OF sf e1 sc1] obtain ms where
    ms: "findMatches f1 ?ts = Inr ms" and sub: "set ms \<subseteq> set results"
    by auto
  from ms obtain hits where h1: "lineHits f1 ?ts 0 (lines f1) = Inr hits"
    and h1s: "set ms \<subseteq> set hits"
    and rp1: "\<forall>h \<in> set hits. r_relativePath h = relativePath f1"
    and rep: "\<forall>h \<in> set hits. \<exists>m \<in> set ms. bucketKey m = bucketKey h"
    and best: "\<forall>m \<in> set ms. \<forall>h \<in> set hits. bucketKey h = bucketKey m \<longrightarrow> r_score h \<le> r_score m"
    by (rule findMatches_facts)
  from field_hit_high [OF h1 assms(5)] obtain h where h: "h \<in> set hits" "45 \<le> r_score h"
    by blast
  from rep h(1) obtain a where a1: "a \<in> set ms" and ak: "bucketKey a = bucketKey h"
    by blast
  from best a1 h(1) ak have "r_score h \<le> r_score a"
    by simp
  with h(2) a1 have a: "a \<in> set ms" "45 \<le> r_score a"
    by simp_all
  with sub setS h1s rp1 have aS: "a \<in> set S" and arp: "r_relativePath a = relativePath f1"
    by auto
  have low: "r_score r \<le> 40" if "r \<in> set S" "r_relativePath r = relativePath f2" for r
  proof -
    from that(1) setS have "r \<in> set results" by simp
    from searchFiles_paths [OF sf this w] obtain f hits' where
      f: "(r_relativePath r, f) \<in> set (files idx)" and
      hh: "lineHits f ?ts 0 (lines f) = Inr hits'" "r \<in> set hits'"
      by blast
    from f that(2) have "(relativePath f2, f) \<in> set (files idx)"
      by simp
    from eq_key_imp_eq_value [OF d this e2] have "f = f2" .
    with prose_hits_low [OF hh] assms(6) show ?thesis by simp
  qed
  have from12: "r_relativePath r = relativePath f1 \<or> r_relativePath r = relativePath f2"
    if "r \<in> set S" for r
  proof -
    from that setS have "r \<in> set results" by simp
    from searchFiles_paths [OF sf this w] obtain f where
      f: "(r_relativePath r, f) \<in> set (files idx)"
      by blast
    then have "snd (r_relativePath r, f) \<in> snd ` set (files idx)"
      by (rule imageI)
    with mem have "f = f1 \<or> f = f2"
      by simp
    moreover from f w have "relativePath f = r_relativePath r"
      by auto
    ultimately show ?thesis by auto
  qed
  have rank: "\<exists>i < j. r_relativePath (take n S ! i) = relativePath f1
                \<and> r_score (take n S ! j) < r_score (take n S ! i)"
    if "j < length (take n S)" "r_relativePath (take n S ! j) = relativePath f2" for j
  proof -
    from that(1) have j: "j < length S" "j < n" "take n S ! j = S ! j"
      by simp_all
    with that(2) low [of "S ! j"] have "r_score (S ! j) \<le> 40"
      by simp
    with a(2) have "r_score (S ! j) < r_score a" by simp
    from sorted_desc_before [OF srt aS j(1) this] obtain i where "i < j" "S ! i = a"
      by blast
    with j arp \<open>r_score (S ! j) < r_score a\<close> show ?thesis
      by (intro exI [of _ i]) simp
  qed
  have top: "take n S \<noteq> [] \<and> r_relativePath (hd (take n S)) = relativePath f1"
    if "case limit of None \<Rightarrow> True | Some m \<Rightarrow> 1 \<le> m"
  proof -
    from aS have "S \<noteq> []" by auto
    have "1 \<le> limitOf (examples_only limit)"
      using that by (auto simp: limitOf_def examples_only_def split: option.splits)
    moreover from \<open>S \<noteq> []\<close> have "1 \<le> int (length S)"
      by (cases S) simp_all
    ultimately have "slice S 0 (limitOf (examples_only limit)) \<noteq> []"
      using \<open>S \<noteq> []\<close> by (auto simp: slice_def Let_def min_def)
    with rs have nz: "take n S \<noteq> []" by simp
    then have hd: "hd (take n S) = S ! 0" and "0 < length S"
      by (auto simp: hd_conv_nth)
    have "r_relativePath (S ! 0) \<noteq> relativePath f2"
    proof
      assume "r_relativePath (S ! 0) = relativePath f2"
      with low [of "S ! 0"] \<open>0 < length S\<close> have "r_score (S ! 0) < r_score a"
        using a(2) by simp
      from sorted_desc_before [OF srt aS \<open>0 < length S\<close> this] show False by simp
    qed
    with from12 [of "S ! 0"] \<open>0 < length S\<close> nz hd show ?thesis
      by simp
  qed
  from s rank top show ?thesis
    by blast
qed

lemma two_files_search:
  "map (\<lambda>r. (r_relativePath r, r_score r))
       (projr (search two_files_index ''question'' (examples_only None))) =
     [(example_path ''f.yml'', 45), (example_path ''p.md'', 25)]"
  by (simp add: search_eval two_files_files field_file_def prose_file_def corpus_eval
      examples_only_def string_eval regexp_eval match_eval rangeKey_def show_int_def show_nat.simps)

theorem field_declaration_ranks_first_witness:
  "r_relativePath (hd (projr (search two_files_index ''question'' (examples_only None)))) =
     relativePath field_file
   \<and> map (\<lambda>r. (r_relativePath r, r_score r))
       (projr (search two_files_index ''question'' (examples_only None))) =
     [(example_path ''f.yml'', 45), (example_path ''p.md'', 25)]"
proof -
  have 1: "wf_index two_files_index"
    unfolding two_files_index_def by (rule wf_index_ingested) (simp add: text_file_def)
  have 2: "map snd (files two_files_index) = [field_file, prose_file]
           \<or> map snd (files two_files_index) = [prose_file, field_file]"
    by (simp add: two_files_files)
  have 3: "type field_file = Example" and 4: "type prose_file = Example"
    by (simp_all add: field_file_def prose_file_def example_file_def)
  have 5: "''question: |'' \<in> set (lines field_file)"
    by (simp add: field_file_def example_file_def)
  have 6: "\<forall>l \<in> set (lines prose_file). \<not> startsWith (toLowerCase l) ''question:''"
    by (simp add: prose_file_def example_file_def string_eval)
  from field_declaration_ranks_first [OF 1 2 3 4 5 6, of None] obtain rs where
    "search two_files_index ''question'' (examples_only None) = Inr rs"
    "r_relativePath (hd rs) = relativePath field_file"
    by auto
  with two_files_search show ?thesis
    by simp
qed

section \<open>The score formula on terms without pattern characters\<close>

text \<open>
  When no query term contains a pattern character, the pattern built from a term matches
  exactly where the term occurs between word boundaries, and the hits that \<open>findMatches\<close>
  collects for a file, before deduplication, are those of the formula.
\<close>

lemma parse_plain_char:
  "c \<notin> set pattern_chars \<Longrightarrow> parse stk alts sq lt (c # cs) = parse stk alts (Chr c # sq) Atom cs"
  by (simp add: pattern_chars_def)

lemma parse_plain:
  "plain t \<Longrightarrow> t \<noteq> [] \<Longrightarrow>
   parse stk alts sq lt (t @ cs) = parse stk alts (rev (map Chr t) @ sq) Atom cs"
proof (induction t arbitrary: sq lt)
  case Nil
  then show ?case by simp
next
  case (Cons c t)
  from Cons.prems have c: "c \<notin> set pattern_chars" and t: "plain t"
    by (simp_all add: plain_def)
  show ?case
  proof (cases "t = []")
    case True
    with c show ?thesis
      by (simp add: parse_plain_char del: parse.simps)
  next
    case False
    from Cons.IH [OF t False, of "Chr c # sq" Atom] c show ?thesis
      by (simp add: parse_plain_char del: parse.simps)
  qed
qed

lemma mk_seq_snoc: "mk_seq (sq @ [r]) = Seq r (mk_seq sq)"
  by (simp add: mk_seq_def)

lemma RegExp_plain_word:
  assumes "plain t" and "t \<noteq> []"
  shows "RegExp (word_pattern t) = Inr (literal_word t)"
proof -
  have "RegExp (word_pattern t) = parse [] [] [WordBoundary False] NoAtom (t @ [bslash, CHR ''b''])"
    by (simp add: RegExp_def word_pattern_def bslash_def)
  also have "\<dots> = parse [] [] (rev (map Chr t) @ [WordBoundary False]) Atom [bslash, CHR ''b'']"
    by (rule parse_plain [OF assms])
  also have "\<dots> = Inr (literal_word t)"
    by (simp add: bslash_def mk_alt_def literal_word_def)
  finally show ?thesis .
qed

lemma step_chars:
  "step False (mk_seq (rest_rev @ rev (map Chr t))) (prev, s) =
     (if startsWith s t then step False (mk_seq rest_rev) (last_of prev t, drop (length t) s) else [])"
proof (induction t arbitrary: prev s)
  case Nil
  then show ?case by (simp add: last_of_def)
next
  case (Cons c t)
  have "mk_seq (rest_rev @ rev (map Chr (c # t))) = Seq (Chr c) (mk_seq (rest_rev @ rev (map Chr t)))"
    using mk_seq_snoc [of "rest_rev @ rev (map Chr t)" "Chr c"] by simp
  then show ?case
    by (cases s) (auto simp: Cons.IH canon_def last_of_def)
qed

lemma step_literal_word:
  "step False (literal_word t) (prev, s) \<noteq> [] \<longleftrightarrow> whole_word_at prev s t"
proof -
  have lw: "literal_word t = Seq (WordBoundary False) (mk_seq ([WordBoundary False] @ rev (map Chr t)))"
    unfolding literal_word_def
    using mk_seq_snoc [of "WordBoundary False # rev (map Chr t)" "WordBoundary False"] by simp
  have e: "mk_seq [WordBoundary False] = Seq (WordBoundary False) Empty"
    by (simp add: mk_seq_def)
  have sc: "step False (mk_seq (WordBoundary False # rev (map Chr t))) (prev, s) =
      (if startsWith s t
       then step False (mk_seq [WordBoundary False]) (last_of prev t, drop (length t) s) else [])"
    using step_chars [of "[WordBoundary False]" t prev s] by simp
  show ?thesis
    unfolding lw by (auto simp: sc e whole_word_at_def)
qed

lemma test_from_literal_word:
  "test_from False (literal_word t) prev s \<longleftrightarrow> whole_word_from prev s t"
  by (induction s arbitrary: prev) (simp_all add: step_literal_word)

lemma test_literal_word: "test False (literal_word t) l \<longleftrightarrow> whole_word l t"
  by (simp add: test_def whole_word_def test_from_literal_word)

lemma count_Cons: "count P (x # xs) = (if P x then 1 else 0) + count P xs"
  by (simp add: count_def)

lemma count_Nil [simp]: "count P [] = 0"
  by (simp add: count_def)

lemma scoreTerms_plain:
  assumes "\<forall>t \<in> set ts. plain t \<and> t \<noteq> []"
  shows "scoreTerms l ts (s0, m0) =
           Inr (s0 + 10 * count (\<lambda>t. True) (filter (includesStr l) ts)
                   + 20 * count (\<lambda>t. startsWith l (t @ '':'')) (filter (includesStr l) ts)
                   + 5 * count (whole_word l) (filter (includesStr l) ts),
                m0 + length (filter (includesStr l) ts))"
  using assms
proof (induction ts arbitrary: s0 m0)
  case Nil
  then show ?case by simp
next
  case (Cons t ts)
  from Cons.prems have t: "RegExp (word_pattern t) = Inr (literal_word t)"
    by (simp add: RegExp_plain_word)
  from Cons.prems have ts: "\<forall>t \<in> set ts. plain t \<and> t \<noteq> []"
    by simp
  show ?case
    by (simp add: t Cons.IH [OF ts] test_literal_word count_Cons algebra_simps)
qed

lemma titleBonus_count: "titleBonus tt ts x = x + 15 * count (includesStr tt) ts"
  by (induction ts arbitrary: x) (simp_all add: count_Cons)

lemma mkHit_score:
  "r_score (mkHit f ts i s m) =
     s + of_nat m / of_nat (length ts) * 10
       + (case truthy_title f of None \<Rightarrow> 0 | Some tt \<Rightarrow> 15 * count (includesStr (toLowerCase tt)) ts)"
  by (simp add: mkHit_def Let_def titleBonus_count split: option.splits)

lemma mkHit_hit_with_score: "mkHit f ts i s m = hit_with_score f ts i (r_score (mkHit f ts i s m))"
  by (simp add: hit_with_score_def mkHit_def Let_def)

lemma line_hit_plain:
  assumes "\<forall>t \<in> set ts. plain t \<and> t \<noteq> []"
    and "scoreTerms (toLowerCase l) ts (0, 0) = Inr (s, m)"
  shows "(if m > 0 then [mkHit f ts i s m] else []) =
         (case spec_score f l ts of None \<Rightarrow> [] | Some x \<Rightarrow> [hit_with_score f ts i x])"
proof -
  let ?matched = "filter (includesStr (toLowerCase l)) ts"
  from assms(2) scoreTerms_plain [OF assms(1), of "toLowerCase l" 0 0]
  have s: "s = 10 * count (\<lambda>t. True) ?matched
             + 20 * count (\<lambda>t. startsWith (toLowerCase l) (t @ '':'')) ?matched
             + 5 * count (whole_word (toLowerCase l)) ?matched"
    and m: "m = length ?matched"
    by simp_all
  show ?thesis
  proof (cases "?matched = []")
    case True
    with m show ?thesis
      by (simp add: spec_score_def)
  next
    case False
    with m have "m > 0" by simp
    moreover have "spec_score f l ts = Some (r_score (mkHit f ts i s m))"
      using False by (simp add: spec_score_def Let_def mkHit_score s m count_def)
    ultimately show ?thesis
      using mkHit_hit_with_score [of f ts i s m] by simp
  qed
qed

lemma score_formula_plain_terms:
  assumes "\<forall>t \<in> set ts. plain t \<and> t \<noteq> []"
  shows "lineHits f ts i ls = Inr (spec_hits f ts i ls)"
proof (induction ls arbitrary: i)
  case Nil
  then show ?case by (simp add: spec_hits_def)
next
  case (Cons l ls)
  obtain s m where st: "scoreTerms (toLowerCase l) ts (0, 0) = Inr (s, m)"
    using scoreTerms_plain [OF assms] by blast
  have "[i..<i + length (l # ls)] = i # [i + 1..<i + 1 + length ls]"
    by (subst upt_rec) simp
  then have "spec_hits f ts i (l # ls) =
      (case spec_score f l ts of None \<Rightarrow> [] | Some x \<Rightarrow> [hit_with_score f ts i x])
      @ spec_hits f ts (i + 1) ls"
    by (simp add: spec_hits_def)
  with line_hit_plain [OF assms st, of f i] Cons.IH [of "i + 1"] st show ?case
    by simp
qed

end
